theory Spec2Isabelle
  imports Complex_Main "HOL-Library.AList"
begin

section \<open>Python values of \<open>nlxplain/evaluation/explanation_evaluation.py\<close>\<close>

text \<open>
  The module drives a registry of metric objects over an explanation matrix (a pandas
  frame) and ranks the explainers. Floating point scores are modelled as \<^typ>\<open>real\<close>
  (no NaN, no rounding), Python integers as \<^typ>\<open>int\<close>, exceptions as values of
  \<open>error\<close>. \<open>NaNCell\<close> is no exception of Python: it marks a frame with a missing
  cell, which the model has no value for.
\<close>

datatype error = ValueError | KeyError | InvalidIndexError | NaNCell

text \<open>
  The class of a metric object, as far as \<open>isinstance(m, BaseEvaluator)\<close> can tell:
  the base class itself, a class derived from it (the metric classes the module imports,
  and what the annotation \<open>List[BaseEvaluator]\<close> of \<open>evaluation_metrics\<close> asks
  for), or a class outside the hierarchy.
\<close>

datatype py_class = BaseEvaluator | BaseEvaluator_subclass | Unrelated_class

fun isinstance_BaseEvaluator :: "py_class \<Rightarrow> bool" where
  "isinstance_BaseEvaluator BaseEvaluator = True"
| "isinstance_BaseEvaluator BaseEvaluator_subclass = True"
| "isinstance_BaseEvaluator Unrelated_class = False"

text \<open>
  A numpy array of scores: a vector, or a two-dimensional block of rows.
\<close>

datatype ndarray = Array1 "real list" | Array2 "real list list"

text \<open>
  A metric object: its class attributes and its \<open>evaluate_explanation\<close> method, which
  takes the text, the score vector, the rationale (plausibility metrics), the target
  (the other metrics) and the keyword arguments the caller forwards.
  \<open>BEST_SORTING_ASCENDING\<close> is \<open>None\<close> when the attribute is neither \<open>True\<close> nor
  \<open>False\<close>.
\<close>

record 'kw metric =
  SHORT_NAME :: string
  TYPE_METRIC :: string
  BEST_SORTING_ASCENDING :: "bool option"
  metric_class :: py_class
  evaluate_explanation :: "string \<Rightarrow> ndarray \<Rightarrow> int list option \<Rightarrow> int option \<Rightarrow> 'kw \<Rightarrow> real"

text \<open>
  The evaluator object. \<open>tokenizer\<close> is \<open>self.tokenizer.encode\<close>: a word to its token
  ids, special tokens included.
\<close>

record 'kw ExplanationEvalutator =
  tokenizer :: "string \<Rightarrow> int list"
  faithfulness_metrics :: "'kw metric list"
  plausibility_metrics :: "'kw metric list"
  other_measures :: "'kw metric list"

subsection \<open>\<open>__init__\<close>\<close>

text \<open>
  The metric classes of \<open>faithfulness_measures\<close> and \<open>plausibility_measures\<close> are not
  part of this module: the objects their constructors return are parameters.
\<close>

record 'kw default_metrics =
  AOPC_Comprehensiveness_Evaluation :: "'kw metric"
  AOPC_Sufficiency_Evaluation :: "'kw metric"
  TauLOO_Evaluation :: "bool \<Rightarrow> 'kw metric"
  AUPRC_PlausibilityEvaluation :: "'kw metric"
  Tokenf1_PlausibilityEvaluation :: "'kw metric"
  TokenIOU_PlausibilityEvaluation :: "'kw metric"

definition new_evaluator :: "(string \<Rightarrow> int list) \<Rightarrow> 'kw ExplanationEvalutator" where
  "new_evaluator tok =
     \<lparr>tokenizer = tok, faithfulness_metrics = [], plausibility_metrics = [], other_measures = []\<rparr>"

text \<open>The \<open>else\<close> branch: the loop over the supplied metrics, which stops at the first raise.\<close>

fun add_metrics :: "'kw ExplanationEvalutator \<Rightarrow> 'kw metric list \<Rightarrow> error + 'kw ExplanationEvalutator" where
  "add_metrics self [] = Inr self"
| "add_metrics self (evaluation_metric # rest) =
     (if isinstance_BaseEvaluator (metric_class evaluation_metric) then Inl ValueError
      else if TYPE_METRIC evaluation_metric = ''faithfulness'' then
        add_metrics (self\<lparr>faithfulness_metrics := faithfulness_metrics self @ [evaluation_metric]\<rparr>) rest
      else if TYPE_METRIC evaluation_metric = ''plausibility'' then
        add_metrics (self\<lparr>plausibility_metrics := plausibility_metrics self @ [evaluation_metric]\<rparr>) rest
      else
        add_metrics (self\<lparr>other_measures := other_measures self @ [evaluation_metric]\<rparr>) rest)"

text \<open>
  \<open>use_correlation\<close> and \<open>use_plausibility_metrics\<close> are the two keyword arguments the
  constructor reads (both default to \<open>True\<close> in the source).
\<close>

definition init :: "'kw default_metrics \<Rightarrow> (string \<Rightarrow> int list) \<Rightarrow> 'kw metric list option \<Rightarrow> bool \<Rightarrow> bool
    \<Rightarrow> error + 'kw ExplanationEvalutator" where
  "init dm tok evaluation_metrics use_correlation use_plausibility_metrics =
     (case evaluation_metrics of
        None \<Rightarrow>
          Inr ((new_evaluator tok)
            \<lparr>faithfulness_metrics :=
               [AOPC_Comprehensiveness_Evaluation dm, AOPC_Sufficiency_Evaluation dm,
                TauLOO_Evaluation dm use_correlation],
             plausibility_metrics :=
               (if use_plausibility_metrics then
                  [AUPRC_PlausibilityEvaluation dm, Tokenf1_PlausibilityEvaluation dm,
                   TokenIOU_PlausibilityEvaluation dm]
                else [])\<rparr>)
      | Some ms \<Rightarrow> add_metrics (new_evaluator tok) ms)"

subsection \<open>\<open>get_true_rational_tokens\<close>\<close>

text \<open>\<open>self.tokenizer.encode(t)[1:-1]\<close>: the token ids without the first and the last.\<close>

definition converted_token :: "'kw ExplanationEvalutator \<Rightarrow> string \<Rightarrow> int list" where
  "converted_token self t = butlast (tl (tokenizer self t))"

definition get_true_rational_tokens :: "'kw ExplanationEvalutator \<Rightarrow> string list \<Rightarrow> int list \<Rightarrow> int list" where
  "get_true_rational_tokens self original_tokens rationale_original_tokens =
     foldl (\<lambda>token_rationale (t, rationale_t).
              foldl (\<lambda>acc token_i. acc @ [rationale_t]) token_rationale (converted_token self t))
       [] (zip original_tokens rationale_original_tokens)"

subsection \<open>Data frames and arrays\<close>

text \<open>
  A column of a frame: floating point scores, or the integers a rank column holds.
  A frame is its ordered row labels and its ordered, named columns; labels and names may
  repeat. Every column of a frame has one entry per row label.
\<close>

datatype series = Floats "real list" | Ints "int list"

fun to_float :: "series \<Rightarrow> real list" where
  "to_float (Floats xs) = xs"
| "to_float (Ints ks) = map real_of_int ks"

fun len_series :: "series \<Rightarrow> nat" where
  "len_series (Floats xs) = length xs"
| "len_series (Ints ks) = length ks"

record dataframe =
  index :: "string list"
  cols :: "(string \<times> series) list"

definition columns :: "dataframe \<Rightarrow> string list" where
  "columns df = map fst (cols df)"

text \<open>\<open>df[c]\<close>: every column labelled \<open>c\<close> (one series, or a block of several).\<close>

definition getitem :: "dataframe \<Rightarrow> string \<Rightarrow> series list" where
  "getitem df c = map snd (filter (\<lambda>(n, s). n = c) (cols df))"

text \<open>\<open>np.asarray\<close> of a block, flattened row by row (for one series: the series).\<close>

definition ravel :: "series list \<Rightarrow> real list" where
  "ravel block = concat (transpose (map to_float block))"

text \<open>
  \<open>df[c] = v\<close>: the length of \<open>v\<close> must be the number of rows; every column
  labelled \<open>c\<close> is replaced, and a new label is appended as the last column.
\<close>

definition setitem :: "dataframe \<Rightarrow> string \<Rightarrow> series \<Rightarrow> error + dataframe" where
  "setitem df c v =
     (if len_series v \<noteq> length (index df) then Inl ValueError
      else if c \<in> set (columns df) then
        Inr (df\<lparr>cols := map (\<lambda>(n, s). if n = c then (n, v) else (n, s)) (cols df)\<rparr>)
      else Inr (df\<lparr>cols := cols df @ [(c, v)]\<rparr>))"

text \<open>\<open>df[labels]\<close>: for each label in turn, every column that carries it.\<close>

definition select_columns :: "dataframe \<Rightarrow> string list \<Rightarrow> error + dataframe" where
  "select_columns df labels =
     (if \<exists>c \<in> set labels. c \<notin> set (columns df) then Inl KeyError
      else Inr (df\<lparr>cols := concat (map (\<lambda>c. filter (\<lambda>(n, s). n = c) (cols df)) labels)\<rparr>))"

text \<open>\<open>df.columns = names\<close>, for as many names as there are columns.\<close>

definition set_columns :: "dataframe \<Rightarrow> string list \<Rightarrow> dataframe" where
  "set_columns df names = df\<lparr>cols := zip names (map snd (cols df))\<rparr>"

text \<open>
  \<open>df.loc[label].values\<close>: the row of a label that occurs once, as a vector; the block
  of its rows when the label repeats.
\<close>

definition row_at :: "dataframe \<Rightarrow> nat \<Rightarrow> real list" where
  "row_at df i = map (\<lambda>(n, s). to_float s ! i) (cols df)"

definition loc_values :: "dataframe \<Rightarrow> string \<Rightarrow> ndarray" where
  "loc_values df label =
     (case filter (\<lambda>i. index df ! i = label) [0..<length (index df)] of
        [i] \<Rightarrow> Array1 (row_at df i)
      | positions \<Rightarrow> Array2 (map (row_at df) positions))"

text \<open>
  Objects live in a store: a frame is reached through a reference, \<open>copy.deepcopy\<close> and
  the pandas constructors allocate a fresh one, and an assignment to \<open>df[c]\<close> or
  \<open>df.columns\<close> writes to the object the reference points to.
\<close>

record heap =
  next_ref :: nat
  frames :: "nat \<Rightarrow> dataframe"

definition alloc :: "heap \<Rightarrow> dataframe \<Rightarrow> nat \<times> heap" where
  "alloc h df = (next_ref h, h\<lparr>next_ref := Suc (next_ref h), frames := (frames h)(next_ref h := df)\<rparr>)"

definition store :: "heap \<Rightarrow> nat \<Rightarrow> dataframe \<Rightarrow> heap" where
  "store h r df = h\<lparr>frames := (frames h)(r := df)\<rparr>"

subsection \<open>Library functions\<close>

text \<open>
  Modelled from the spec: \<open>scipy.stats.rankdata(a, method="dense")\<close> is a library
  function, not part of the module. The ascending dense rank of a value is the number of
  distinct values of the array that do not exceed it: equal values share a rank, and the
  ranks are the smallest consecutive positive integers that follow the ascending order.
\<close>

definition rankdata_dense :: "real list \<Rightarrow> int list" where
  "rankdata_dense a = map (\<lambda>x. int (length (remdups (filter (\<lambda>y. y \<le> x) a)))) a"

text \<open>The decimal digits of a number, as \<open>str\<close> prints them.\<close>

definition digit_char :: "nat \<Rightarrow> char" where
  "digit_char d = ''0123456789'' ! (d mod 10)"

function str_nat :: "nat \<Rightarrow> string" where
  "str_nat n = (if n < 10 then [digit_char n] else str_nat (n div 10) @ [digit_char n])"
  by pat_completeness auto
termination
  by (relation "measure id") auto

declare str_nat.simps [simp del]

text \<open>
  Modelled from the spec: \<open>ParserBase._maybe_dedup_names\<close> is a private helper of
  pandas, not part of the module. It appends a positional disambiguation suffix
  \<open>.k\<close> to every occurrence of a name beyond the first, and goes on appending while the
  name it made is itself taken, so that the names it returns are unique and in the
  original order. \<open>counts\<close> is its \<open>defaultdict(int)\<close>: how often a name was seen.
\<close>

definition count_of :: "(string \<times> nat) list \<Rightarrow> string \<Rightarrow> nat" where
  "count_of counts col = (case map_of counts col of None \<Rightarrow> 0 | Some n \<Rightarrow> n)"

definition longest_key :: "(string \<times> nat) list \<Rightarrow> nat" where
  "longest_key counts = Max (insert 0 (length ` fst ` set counts))"

lemma count_of_pos_le_longest:
  assumes "0 < count_of counts col"
  shows "length col \<le> longest_key counts"
proof -
  from assms obtain n where "map_of counts col = Some n"
    by (auto simp: count_of_def split: option.splits)
  then have "(col, n) \<in> set counts" by (rule map_of_SomeD)
  then have "length col \<in> insert 0 (length ` fst ` set counts)" by force
  then show ?thesis unfolding longest_key_def by (intro Max_ge) auto
qed

lemma longest_key_update:
  assumes "0 < count_of counts col"
  shows "longest_key (AList.update col n counts) = longest_key counts"
proof -
  from assms have "col \<in> fst ` set counts"
    by (auto simp: count_of_def split: option.splits dest!: map_of_SomeD intro: rev_image_eqI)
  then have "fst ` set (AList.update col n counts) = fst ` set counts"
    by (auto simp: dom_update)
  then show ?thesis by (simp add: longest_key_def)
qed

text \<open>The inner \<open>while cur_count > 0\<close> loop, for one name.\<close>

function mangle :: "(string \<times> nat) list \<Rightarrow> string \<Rightarrow> (string \<times> nat) list \<times> string" where
  "mangle counts col =
     (let cur_count = count_of counts col in
      if cur_count > 0 then
        mangle (AList.update col (cur_count + 1) counts) (col @ ''.'' @ str_nat cur_count)
      else (counts, col))"
  by pat_completeness auto
termination
proof (relation "measure (\<lambda>(counts, col). Suc (longest_key counts) - length col)", goal_cases)
  case 1
  show ?case by simp
next
  case (2 counts col cur)
  then have pos: "0 < count_of counts col" by simp
  from count_of_pos_le_longest[OF pos] longest_key_update[OF pos]
  show ?case by simp
qed

declare mangle.simps [simp del]

text \<open>The outer \<open>for i, col in enumerate(names)\<close> loop.\<close>

fun dedup_loop :: "(string \<times> nat) list \<Rightarrow> string list \<Rightarrow> string list" where
  "dedup_loop counts [] = []"
| "dedup_loop counts (col # names) =
     (let (counts1, col1) = mangle counts col;
          counts2 = AList.update col1 (count_of counts1 col1 + 1) counts1
      in col1 # dedup_loop counts2 names)"

definition maybe_dedup_names :: "string list \<Rightarrow> string list" where
  "maybe_dedup_names names = dedup_loop [] names"

subsection \<open>\<open>evaluate_explainers\<close>: the score table\<close>

text \<open>
  \<open>evaluation_scores\<close> is a dict of dicts, metric name to explainer name to score; a
  Python dict keeps its keys in insertion order, so it is an association list.
  Every call of a metric's \<open>evaluate_explanation\<close> is logged with its arguments, in the
  order the calls are made.
\<close>

type_synonym score_table = "(string \<times> (string \<times> real) list) list"

datatype bucket = Faithfulness | Plausibility | Other

datatype 'kw call =
  Call (call_bucket: bucket) (call_metric: string) (call_explainer: string) (call_text: string)
    (call_scores: ndarray) (call_rationale: "int list option") (call_target: "int option")
    (call_args: 'kw)

text \<open>
  \<open>if name not in evaluation_scores: evaluation_scores[name] = {}\<close>, then
  \<open>evaluation_scores[name][explainer_type] = score\<close>.
\<close>

definition record_score :: "score_table \<Rightarrow> string \<Rightarrow> string \<Rightarrow> real \<Rightarrow> score_table" where
  "record_score evaluation_scores name explainer_type score =
     (let inner = (case map_of evaluation_scores name of None \<Rightarrow> [] | Some d \<Rightarrow> d)
      in AList.update name (AList.update explainer_type score inner) evaluation_scores)"

definition invoke :: "bucket \<Rightarrow> string \<Rightarrow> string \<Rightarrow> ndarray \<Rightarrow> int list option \<Rightarrow> int option \<Rightarrow> 'kw
    \<Rightarrow> score_table \<times> 'kw call list \<Rightarrow> 'kw metric \<Rightarrow> score_table \<times> 'kw call list" where
  "invoke b explainer_type sentence scores rationale target args st m =
     (record_score (fst st) (SHORT_NAME m) explainer_type
        (evaluate_explanation m sentence scores rationale target args),
      snd st @ [Call b (SHORT_NAME m) explainer_type sentence scores rationale target args])"

text \<open>The body of \<open>for explainer_type in explanations.index\<close>.\<close>

definition evaluate_row :: "'kw ExplanationEvalutator \<Rightarrow> string \<Rightarrow> dataframe \<Rightarrow> int list option \<Rightarrow> int \<Rightarrow> 'kw
    \<Rightarrow> score_table \<times> 'kw call list \<Rightarrow> string \<Rightarrow> score_table \<times> 'kw call list" where
  "evaluate_row self sentence explanations true_rationale target args st explainer_type =
     (let soft_score_explanation = loc_values explanations explainer_type;
          st1 = foldl (invoke Faithfulness explainer_type sentence soft_score_explanation None (Some target) args)
                  st (faithfulness_metrics self);
          st2 = (case true_rationale of
                   None \<Rightarrow> st1
                 | Some r \<Rightarrow>
                     if length (plausibility_metrics self) > 0 then
                       foldl (invoke Plausibility explainer_type sentence soft_score_explanation (Some r) None args)
                         st1 (plausibility_metrics self)
                     else st1)
      in foldl (invoke Other explainer_type sentence soft_score_explanation None (Some target) args)
           st2 (other_measures self))"

definition evaluation_loop :: "'kw ExplanationEvalutator \<Rightarrow> string \<Rightarrow> dataframe \<Rightarrow> int list option \<Rightarrow> int \<Rightarrow> 'kw
    \<Rightarrow> score_table \<times> 'kw call list" where
  "evaluation_loop self sentence explanations true_rationale target args =
     foldl (evaluate_row self sentence explanations true_rationale target args) ([], []) (index explanations)"

text \<open>
  \<open>pd.concat([df_eval, pd.DataFrame(evaluation_scores)], axis=1)\<close>: one new column per
  key of the score table, aligned on the row labels. An empty table adds nothing; with
  repeated row labels the two frames cannot be aligned; a row label without a score would
  give a NaN cell, which no run of the loop above leaves (\<open>NaNCell\<close> stands for it).
\<close>

definition score_column :: "string list \<Rightarrow> (string \<times> real) list \<Rightarrow> real list option" where
  "score_column labels inner = those (map (map_of inner) labels)"

fun score_columns :: "string list \<Rightarrow> score_table \<Rightarrow> (string \<times> series) list option" where
  "score_columns labels [] = Some []"
| "score_columns labels ((name, inner) # rest) =
     (case score_column labels inner of
        None \<Rightarrow> None
      | Some xs \<Rightarrow> (case score_columns labels rest of
           None \<Rightarrow> None
         | Some cs \<Rightarrow> Some ((name, Floats xs) # cs)))"

definition concat_scores :: "dataframe \<Rightarrow> score_table \<Rightarrow> error + dataframe" where
  "concat_scores df_eval evaluation_scores =
     (if evaluation_scores = [] then Inr df_eval
      else if \<not> distinct (index df_eval) then Inl InvalidIndexError
      else (case score_columns (index df_eval) evaluation_scores of
              None \<Rightarrow> Inl NaNCell
            | Some cs \<Rightarrow> Inr (df_eval\<lparr>cols := cols df_eval @ cs\<rparr>)))"

subsection \<open>\<open>_rank_explainers\<close>\<close>

definition evaluation_measures :: "'kw ExplanationEvalutator \<Rightarrow> 'kw metric list" where
  "evaluation_measures self = faithfulness_metrics self @ plausibility_metrics self @ other_measures self"

text \<open>
  \<open>show_higher_cols\<close> (\<open>asc = False\<close>) and \<open>show_lower_cols\<close> (\<open>asc = True\<close>): the names
  of the metrics of that direction whose name is a column of the frame.
\<close>

definition show_cols_for :: "bool \<Rightarrow> 'kw metric list \<Rightarrow> dataframe \<Rightarrow> string list" where
  "show_cols_for asc ms df =
     map SHORT_NAME
       (filter (\<lambda>m. BEST_SORTING_ASCENDING m = Some asc \<and> SHORT_NAME m \<in> set (columns df)) ms)"

text \<open>\<open>min(n, max(r)) + 1 - r\<close>; \<open>max\<close> of an empty array raises.\<close>

definition invert_ranks :: "nat \<Rightarrow> int list \<Rightarrow> error + int list" where
  "invert_ranks n r =
     (if r = [] then Inl ValueError
      else Inr (map (\<lambda>x. min (int n) (Max (set r)) + 1 - x) r))"

text \<open>The loop over \<open>show_higher_cols\<close>; each pass writes to the frame \<open>df_eval\<close> points to.\<close>

fun rank_higher :: "nat \<Rightarrow> string list \<Rightarrow> heap \<Rightarrow> error option \<times> heap" where
  "rank_higher df_eval [] h = (None, h)"
| "rank_higher df_eval (c # cs) h =
     (let r = rankdata_dense (ravel (getitem (frames h df_eval) c)) in
      case invert_ranks (length (index (frames h df_eval))) r of
        Inl e \<Rightarrow> (Some e, h)
      | Inr v \<Rightarrow>
          (case setitem (frames h df_eval) (c @ ''_r'') (Ints v) of
             Inl e \<Rightarrow> (Some e, h)
           | Inr df \<Rightarrow> rank_higher df_eval cs (store h df_eval df)))"

text \<open>The loop over \<open>show_lower_cols\<close>.\<close>

fun rank_lower :: "nat \<Rightarrow> string list \<Rightarrow> heap \<Rightarrow> error option \<times> heap" where
  "rank_lower df_eval [] h = (None, h)"
| "rank_lower df_eval (c # cs) h =
     (case setitem (frames h df_eval) (c @ ''_r'')
             (Ints (rankdata_dense (ravel (getitem (frames h df_eval) c)))) of
        Inl e \<Rightarrow> (Some e, h)
      | Inr df \<Rightarrow> rank_lower df_eval cs (store h df_eval df))"

definition show_cols_of :: "string list \<Rightarrow> string list \<Rightarrow> string list" where
  "show_cols_of names shown =
     concat (map (\<lambda>metric_show. [metric_show, metric_show @ ''_r''])
       (filter (\<lambda>metric_show. metric_show \<in> set shown) names))"

definition output_cols_of :: "string list \<Rightarrow> string list \<Rightarrow> string list \<Rightarrow> string list" where
  "output_cols_of score_cols show_cols cs =
     score_cols @ show_cols @ filter (\<lambda>c. c \<notin> set (score_cols @ show_cols)) cs"

definition rank_explainers :: "'kw ExplanationEvalutator \<Rightarrow> nat \<Rightarrow> string list \<Rightarrow> heap
    \<Rightarrow> (error + nat) \<times> heap" where
  "rank_explainers self df_eval score_cols h =
     (let cs = columns (frames h df_eval);
          show_higher_cols = show_cols_for False (evaluation_measures self) (frames h df_eval)
      in case rank_higher df_eval show_higher_cols h of
           (Some e, h1) \<Rightarrow> (Inl e, h1)
         | (None, h1) \<Rightarrow>
             (let show_lower_cols = show_cols_for True (evaluation_measures self) (frames h1 df_eval)
              in case rank_lower df_eval show_lower_cols h1 of
                   (Some e, h2) \<Rightarrow> (Inl e, h2)
                 | (None, h2) \<Rightarrow>
                     (let show_cols = show_cols_of (map SHORT_NAME (evaluation_measures self))
                                        (show_higher_cols @ show_lower_cols);
                          output_cols = output_cols_of score_cols show_cols cs
                      in case select_columns (frames h2 df_eval) output_cols of
                           Inl e \<Rightarrow> (Inl e, h2)
                         | Inr out \<Rightarrow> (case alloc h2 out of (r, h3) \<Rightarrow> (Inr r, h3)))))"

subsection \<open>\<open>evaluate_explainers\<close>\<close>

text \<open>
  \<open>explanations\<close> is the caller's reference to the explanation matrix. The result is
  the reference to the final table (or the exception that escapes), the log of the metric
  calls, and the store after the call. The styled view (\<open>style_df\<close>,
  \<open>_style_result\<close>) only reads the final table and is left out.
\<close>

text \<open>
  The first lines of the function: \<open>df_eval = copy.deepcopy(explanations)\<close>, and the
  renaming of the copy's columns when a column name of \<open>explanations\<close> repeats.
\<close>

definition working_copy :: "nat \<Rightarrow> heap \<Rightarrow> nat \<times> heap" where
  "working_copy explanations h =
     (case alloc h (frames h explanations) of (df_eval, h1) \<Rightarrow>
        (df_eval,
         if \<not> distinct (columns (frames h1 explanations)) then
           store h1 df_eval
             (set_columns (frames h1 df_eval)
                (maybe_dedup_names (columns (frames h1 explanations))))
         else h1))"

definition evaluate_explainers :: "'kw ExplanationEvalutator \<Rightarrow> string \<Rightarrow> nat \<Rightarrow> int list option \<Rightarrow> bool
    \<Rightarrow> int \<Rightarrow> 'kw \<Rightarrow> heap \<Rightarrow> (error + nat) \<times> 'kw call list \<times> heap" where
  "evaluate_explainers self sentence explanations true_rationale rank_explainer target args h =
     (case working_copy explanations h of (df_eval, h2) \<Rightarrow>
      let text_tokens = columns (frames h2 df_eval);
          (evaluation_scores, calls) =
             evaluation_loop self sentence (frames h2 explanations) true_rationale target args
      in case concat_scores (frames h2 df_eval) evaluation_scores of
           Inl e \<Rightarrow> (Inl e, calls, h2)
         | Inr df \<Rightarrow>
             (case alloc h2 df of (df_eval2, h3) \<Rightarrow>
                if rank_explainer then
                  (case rank_explainers self df_eval2 text_tokens h3 of
                     (res, h4) \<Rightarrow> (res, calls, h4))
                else (Inr df_eval2, calls, h3)))"

section \<open>Auxiliary definitions\<close>

text \<open>
  What one pass of the row loop does, written as one fold: the metrics a row is run
  through, with their bucket, and the call each of them receives.
\<close>

definition evaluated :: "'kw ExplanationEvalutator \<Rightarrow> int list option \<Rightarrow> (bucket \<times> 'kw metric) list" where
  "evaluated self true_rationale =
     map (Pair Faithfulness) (faithfulness_metrics self)
     @ (case true_rationale of None \<Rightarrow> [] | Some r \<Rightarrow> map (Pair Plausibility) (plausibility_metrics self))
     @ map (Pair Other) (other_measures self)"

definition call_of :: "string \<Rightarrow> dataframe \<Rightarrow> int list option \<Rightarrow> int \<Rightarrow> 'kw \<Rightarrow> string
    \<Rightarrow> bucket \<times> 'kw metric \<Rightarrow> 'kw call" where
  "call_of sentence explanations true_rationale target args explainer_type bm =
     Call (fst bm) (SHORT_NAME (snd bm)) explainer_type sentence (loc_values explanations explainer_type)
       (if fst bm = Plausibility then true_rationale else None)
       (if fst bm = Plausibility then None else Some target) args"

definition step :: "string \<Rightarrow> dataframe \<Rightarrow> int list option \<Rightarrow> int \<Rightarrow> 'kw \<Rightarrow> string
    \<Rightarrow> score_table \<times> 'kw call list \<Rightarrow> bucket \<times> 'kw metric \<Rightarrow> score_table \<times> 'kw call list" where
  "step sentence explanations true_rationale target args explainer_type st bm =
     invoke (fst bm) explainer_type sentence (loc_values explanations explainer_type)
       (if fst bm = Plausibility then true_rationale else None)
       (if fst bm = Plausibility then None else Some target) args st (snd bm)"

definition add_key :: "string list \<Rightarrow> string \<Rightarrow> string list" where
  "add_key ks n = (if n \<in> set ks then ks else ks @ [n])"

definition scored_for :: "score_table \<Rightarrow> string \<Rightarrow> string set" where
  "scored_for t n = (case map_of t n of None \<Rightarrow> {} | Some d \<Rightarrow> fst ` set d)"

text \<open>
  The value a metric returns for a row, with the arguments its bucket's loop passes it;
  the cell \<open>evaluation_scores[n][e]\<close> of a score table, \<open>None\<close> when a key is absent;
  and the metrics of a given name among those a row is run through. The last of them
  writes the cell last.
\<close>

definition score_of :: "string \<Rightarrow> dataframe \<Rightarrow> int list option \<Rightarrow> int \<Rightarrow> 'kw \<Rightarrow> string
    \<Rightarrow> bucket \<times> 'kw metric \<Rightarrow> real" where
  "score_of sentence explanations true_rationale target args explainer_type bm =
     evaluate_explanation (snd bm) sentence (loc_values explanations explainer_type)
       (if fst bm = Plausibility then true_rationale else None)
       (if fst bm = Plausibility then None else Some target) args"

definition cell :: "score_table \<Rightarrow> string \<Rightarrow> string \<Rightarrow> real option" where
  "cell t n e = (case map_of t n of None \<Rightarrow> None | Some d \<Rightarrow> map_of d e)"

definition named :: "string \<Rightarrow> (bucket \<times> 'kw metric) list \<Rightarrow> (bucket \<times> 'kw metric) list" where
  "named n bms = filter (\<lambda>bm. SHORT_NAME (snd bm) = n) bms"

text \<open>
  What the two ranking loops compute, as functions of the frame: \<open>put_column\<close> is an
  assignment \<open>df[c] = v\<close> whose length check has passed, \<open>inverted\<close> the rank column of
  a higher-is-better metric, \<open>add_ranks\<close> one loop. \<open>rankable\<close> says that the columns a
  loop ranks exist once each and have one entry per row.
\<close>

definition put_column :: "dataframe \<Rightarrow> string \<Rightarrow> series \<Rightarrow> dataframe" where
  "put_column df c v =
     (if c \<in> set (columns df) then
        df\<lparr>cols := map (\<lambda>(n, s). if n = c then (n, v) else (n, s)) (cols df)\<rparr>
      else df\<lparr>cols := cols df @ [(c, v)]\<rparr>)"

definition inverted :: "nat \<Rightarrow> real list \<Rightarrow> int list" where
  "inverted n xs =
     map (\<lambda>x. min (int n) (Max (set (rankdata_dense xs))) + 1 - x) (rankdata_dense xs)"

definition add_ranks :: "(real list \<Rightarrow> int list) \<Rightarrow> string list \<Rightarrow> dataframe \<Rightarrow> dataframe" where
  "add_ranks f cs df =
     foldl (\<lambda>df c. put_column df (c @ ''_r'') (Ints (f (ravel (getitem df c))))) df cs"

definition rankable :: "dataframe \<Rightarrow> string list \<Rightarrow> bool" where
  "rankable df cs =
     (distinct (columns df) \<and> set cs \<subseteq> set (columns df) \<and>
      (\<forall>c \<in> set cs. \<forall>s \<in> set (getitem df c). len_series s = length (index df)))"

text \<open>
  The frames and evaluators the ranker is stated for: column names are unique, the
  \<open>score_cols\<close> are columns of the frame, no two metrics share a \<open>SHORT_NAME\<close>, the
  name \<open>SHORT_NAME_r\<close> of a rank column is neither a column of the frame nor the name of a
  metric, and a column named after a metric has one entry per row.
\<close>

definition ranker_input_ok :: "'kw ExplanationEvalutator \<Rightarrow> dataframe \<Rightarrow> string list \<Rightarrow> bool" where
  "ranker_input_ok self df score_cols =
     (distinct (columns df)
      \<and> set score_cols \<subseteq> set (columns df)
      \<and> distinct (map SHORT_NAME (evaluation_measures self))
      \<and> (\<forall>m \<in> set (evaluation_measures self).
            SHORT_NAME m @ ''_r'' \<notin> set (columns df)
          \<and> SHORT_NAME m @ ''_r'' \<notin> SHORT_NAME ` set (evaluation_measures self)
          \<and> (\<forall>s \<in> set (getitem df (SHORT_NAME m)). len_series s = length (index df))))"

text \<open>
  The evaluators and token columns \<open>evaluate_explainers\<close> is stated for when it ranks:
  no two metrics share a \<open>SHORT_NAME\<close>, and neither a metric's name nor the name
  \<open>SHORT_NAME_r\<close> of its rank column is a token column or, for the latter, the name of
  another metric.
\<close>

definition names_clash_free :: "'kw ExplanationEvalutator \<Rightarrow> string list \<Rightarrow> bool" where
  "names_clash_free self tokens =
     (distinct (map SHORT_NAME (evaluation_measures self))
      \<and> (\<forall>m \<in> set (evaluation_measures self).
            SHORT_NAME m \<notin> set tokens
          \<and> SHORT_NAME m @ ''_r'' \<notin> set tokens
          \<and> SHORT_NAME m @ ''_r'' \<notin> SHORT_NAME ` set (evaluation_measures self)))"

section \<open>Example inputs\<close>

definition example_tokenizer :: "string \<Rightarrow> int list" where
  "example_tokenizer w =
     (if w = ''running'' then [101, 2770, 1394, 102]
      else if w = ''-'' then [101, 102]
      else [101, 7, 102])"

definition example_evaluator :: "unit ExplanationEvalutator" where
  "example_evaluator = new_evaluator example_tokenizer"

definition example_matrix :: dataframe where
  "example_matrix =
     \<lparr>index = [''lime'', ''shap''],
      cols = [(''the'', Floats [1 / 10, 3 / 10]), (''cat'', Floats [1 / 2, - 1 / 5]),
              (''the'', Floats [0, 2 / 5])]\<rparr>"

definition example_heap :: heap where
  "example_heap = \<lparr>next_ref = 1, frames = (\<lambda>r. example_matrix)\<rparr>"

definition example_metric :: "string \<Rightarrow> string \<Rightarrow> bool option \<Rightarrow> (real list \<Rightarrow> real) \<Rightarrow> unit metric" where
  "example_metric name ty asc f =
     \<lparr>SHORT_NAME = name, TYPE_METRIC = ty, BEST_SORTING_ASCENDING = asc,
      metric_class = Unrelated_class,
      evaluate_explanation =
        (\<lambda>sentence scores rationale target args. case scores of Array1 xs \<Rightarrow> f xs | Array2 rows \<Rightarrow> 0)\<rparr>"

text \<open>
  A plausibility metric whose value depends on the rationale it is handed: the sum of
  the scores of the tokens the rationale marks.
\<close>

definition example_plausibility :: "unit metric" where
  "example_plausibility =
     \<lparr>SHORT_NAME = ''auprc_plau'', TYPE_METRIC = ''plausibility'', BEST_SORTING_ASCENDING = Some False,
      metric_class = Unrelated_class,
      evaluate_explanation =
        (\<lambda>sentence scores rationale target args.
           case scores of
             Array1 xs \<Rightarrow>
               (case rationale of
                  None \<Rightarrow> - 1
                | Some r \<Rightarrow> sum_list (map (\<lambda>(x, k). x * real_of_int k) (zip xs r)))
           | Array2 rows \<Rightarrow> 0)\<rparr>"

definition example_registry :: "unit ExplanationEvalutator" where
  "example_registry =
     \<lparr>tokenizer = example_tokenizer,
      faithfulness_metrics =
        [example_metric ''aopc_compr'' ''faithfulness'' (Some False) sum_list,
         example_metric ''aopc_suff'' ''faithfulness'' (Some True) hd],
      plausibility_metrics =
        [example_plausibility],
      other_measures = [example_metric ''n_tokens'' ''other'' None (\<lambda>xs. real (length xs))]\<rparr>"

definition example_scored :: dataframe where
  "example_scored =
     \<lparr>index = [''lime'', ''shap'', ''grad''],
      cols = [(''the'', Floats [1 / 10, 3 / 10, 0]), (''cat'', Floats [1 / 2, - 1 / 5, 1]),
              (''the.1'', Floats [0, 2 / 5, 0]),
              (''aopc_compr'', Floats [3 / 5, 1 / 2, 3 / 5]), (''aopc_suff'', Floats [1 / 10, 3 / 10, 1 / 5]),
              (''n_tokens'', Floats [3, 3, 3])]\<rparr>"

definition example_scored_heap :: heap where
  "example_scored_heap = \<lparr>next_ref = 1, frames = (\<lambda>r. example_scored)\<rparr>"

section \<open>The aligner\<close>

lemma inner_loop_replicate:
  "foldl (\<lambda>acc token_i. acc @ [r]) acc ts = acc @ replicate (length ts) r"
  by (induction ts arbitrary: acc) (simp_all add: replicate_app_Cons_same)

lemma outer_loop_concat:
  "foldl (\<lambda>token_rationale (t, rationale_t).
            foldl (\<lambda>acc token_i. acc @ [rationale_t]) token_rationale (converted_token self t))
     acc ps
   = acc @ concat (map (\<lambda>(t, r). replicate (length (converted_token self t)) r) ps)"
  by (induction ps arbitrary: acc) (auto simp: inner_loop_replicate)

lemma get_true_rational_tokens_concat:
  "get_true_rational_tokens self ws rs =
     concat (map (\<lambda>(t, r). replicate (length (converted_token self t)) r) (zip ws rs))"
  by (simp add: get_true_rational_tokens_def outer_loop_concat)

lemma length_concat_replicate:
  "length ws = length rs \<Longrightarrow>
   length (concat (map (\<lambda>(t, r). replicate (f t) r) (zip ws rs))) = sum_list (map f ws)"
  by (induction ws rs rule: list_induct2) simp_all

section \<open>The renaming of repeated column names\<close>

lemma count_of_update:
  "count_of (AList.update k v al) k' = (if k' = k then v else count_of al k')"
  by (simp add: count_of_def update_conv')

lemma mangle_props:
  "mangle counts col = (counts', col') \<Longrightarrow>
     count_of counts' col' = 0
   \<and> (\<forall>k. count_of counts k \<le> count_of counts' k)
   \<and> (if count_of counts col = 0 then col' = col else (\<exists>s. col' = col @ ''.'' @ s))"
proof (induction counts col arbitrary: counts' col' rule: mangle.induct)
  case (1 counts col)
  show ?case
  proof (cases "count_of counts col > 0")
    case False
    with "1.prems" show ?thesis by (simp add: mangle.simps)
  next
    case True
    let ?c1 = "AList.update col (count_of counts col + 1) counts"
    let ?col1 = "col @ ''.'' @ str_nat (count_of counts col)"
    from True "1.prems" have m: "mangle ?c1 ?col1 = (counts', col')"
      by (simp add: mangle.simps[of counts col] Let_def)
    from "1.IH"[OF refl True m]
    have a: "count_of counts' col' = 0"
      and b: "\<forall>k. count_of ?c1 k \<le> count_of counts' k"
      and c: "if count_of ?c1 ?col1 = 0 then col' = ?col1 else (\<exists>s. col' = ?col1 @ ''.'' @ s)"
      by auto
    have mono: "\<forall>k. count_of counts k \<le> count_of counts' k"
    proof
      fix k
      have "count_of counts k \<le> count_of ?c1 k" by (simp add: count_of_update)
      also have "\<dots> \<le> count_of counts' k" using b by simp
      finally show "count_of counts k \<le> count_of counts' k" .
    qed
    from c have "\<exists>s. col' = col @ ''.'' @ s"
      by (auto split: if_splits)
    with a mono True show ?thesis by simp
  qed
qed

lemma length_dedup_loop: "length (dedup_loop counts names) = length names"
  by (induction names arbitrary: counts) (auto simp: Let_def split: prod.splits)

lemma dedup_loop_fresh:
  "distinct (dedup_loop counts names) \<and> (\<forall>n \<in> set (dedup_loop counts names). count_of counts n = 0)"
proof (induction names arbitrary: counts)
  case Nil
  show ?case by simp
next
  case (Cons col names)
  obtain counts1 col1 where m: "mangle counts col = (counts1, col1)" by force
  let ?c2 = "AList.update col1 (count_of counts1 col1 + 1) counts1"
  from mangle_props[OF m] have z: "count_of counts1 col1 = 0"
    and mono: "\<forall>k. count_of counts k \<le> count_of counts1 k" by auto
  from Cons.IH[of ?c2] have d: "distinct (dedup_loop ?c2 names)"
    and f: "\<forall>n \<in> set (dedup_loop ?c2 names). count_of ?c2 n = 0" by auto
  have notin: "col1 \<notin> set (dedup_loop ?c2 names)"
  proof
    assume "col1 \<in> set (dedup_loop ?c2 names)"
    with f have "count_of ?c2 col1 = 0" by blast
    then show False by (simp add: count_of_update)
  qed
  have fresh: "\<forall>n \<in> set (dedup_loop ?c2 names). count_of counts n = 0"
  proof
    fix n assume n: "n \<in> set (dedup_loop ?c2 names)"
    with f have "count_of ?c2 n = 0" by blast
    moreover from n notin have "n \<noteq> col1" by blast
    ultimately have "count_of counts1 n = 0" by (simp add: count_of_update)
    with mono show "count_of counts n = 0" by (metis le_zero_eq)
  qed
  have c0: "count_of counts col1 = 0" using z mono by (metis le_zero_eq)
  show ?case using m d notin fresh c0 by (simp add: Let_def)
qed

lemma count_after_step:
  assumes m: "mangle counts col = (counts1, col1)"
  shows "0 < count_of (AList.update col1 (count_of counts1 col1 + 1) counts1) col"
    and "0 < count_of counts n \<Longrightarrow> 0 < count_of (AList.update col1 (count_of counts1 col1 + 1) counts1) n"
proof -
  let ?c2 = "AList.update col1 (count_of counts1 col1 + 1) counts1"
  from mangle_props[OF m] have mono: "\<forall>k. count_of counts k \<le> count_of counts1 k"
    and shape: "if count_of counts col = 0 then col1 = col else (\<exists>s. col1 = col @ ''.'' @ s)"
    by auto
  have up: "\<And>k. 0 < count_of counts1 k \<Longrightarrow> 0 < count_of ?c2 k"
    by (simp add: count_of_update)
  show "0 < count_of ?c2 col"
  proof (cases "count_of counts col = 0")
    case True
    with shape have "col1 = col" by simp
    then show ?thesis by (simp add: count_of_update)
  next
    case False
    with mono have "0 < count_of counts1 col" by (metis gr0I le_zero_eq)
    then show ?thesis by (rule up)
  qed
  show "0 < count_of counts n \<Longrightarrow> 0 < count_of ?c2 n"
  proof -
    assume "0 < count_of counts n"
    with mono have "0 < count_of counts1 n" by (metis gr0I le_zero_eq not_less_zero)
    then show ?thesis by (rule up)
  qed
qed

lemma dedup_loop_suffix:
  "i < length names \<Longrightarrow>
   (\<exists>s. dedup_loop counts names ! i = names ! i @ s) \<and>
   (0 < count_of counts (names ! i) \<or> names ! i \<in> set (take i names) \<longrightarrow>
      (\<exists>s. dedup_loop counts names ! i = names ! i @ ''.'' @ s))"
proof (induction names arbitrary: counts i)
  case Nil
  then show ?case by simp
next
  case (Cons col names)
  obtain counts1 col1 where m: "mangle counts col = (counts1, col1)" by force
  let ?c2 = "AList.update col1 (count_of counts1 col1 + 1) counts1"
  have out: "dedup_loop counts (col # names) = col1 # dedup_loop ?c2 names"
    using m by (simp add: Let_def)
  from mangle_props[OF m]
  have shape: "if count_of counts col = 0 then col1 = col else (\<exists>s. col1 = col @ ''.'' @ s)"
    by auto
  show ?case
  proof (cases i)
    case 0
    from shape have "\<exists>s. col1 = col @ s" by (auto split: if_splits)
    moreover from shape have "0 < count_of counts col \<longrightarrow> (\<exists>s. col1 = col @ ''.'' @ s)"
      by (auto split: if_splits)
    ultimately show ?thesis using 0 out by simp
  next
    case (Suc j)
    with Cons.prems have j: "j < length names" by simp
    from Cons.IH[OF j, of ?c2]
    have pre: "\<exists>s. dedup_loop ?c2 names ! j = names ! j @ s"
      and suf: "0 < count_of ?c2 (names ! j) \<or> names ! j \<in> set (take j names) \<longrightarrow>
                  (\<exists>s. dedup_loop ?c2 names ! j = names ! j @ ''.'' @ s)"
      by auto
    have "\<exists>s. dedup_loop ?c2 names ! j = names ! j @ ''.'' @ s"
      if h: "0 < count_of counts (names ! j) \<or> names ! j \<in> set (take (Suc j) (col # names))"
    proof -
      from h consider "0 < count_of counts (names ! j)" | "names ! j = col"
        | "names ! j \<in> set (take j names)" by auto
      then have "0 < count_of ?c2 (names ! j) \<or> names ! j \<in> set (take j names)"
      proof cases
        case 1
        then show ?thesis using count_after_step(2)[OF m] by blast
      next
        case 2
        then show ?thesis using count_after_step(1)[OF m] by simp
      next
        case 3
        then show ?thesis by simp
      qed
      with suf show ?thesis by blast
    qed
    with pre show ?thesis using Suc out by simp
  qed
qed

lemma count_of_Nil: "count_of [] k = 0"
  by (simp add: count_of_def)

lemma maybe_dedup_names_props:
  "length (maybe_dedup_names names) = length names"
  "distinct (maybe_dedup_names names)"
  "i < length names \<Longrightarrow> \<exists>s. maybe_dedup_names names ! i = names ! i @ s"
  "i < length names \<Longrightarrow> names ! i \<in> set (take i names) \<Longrightarrow>
     \<exists>s. maybe_dedup_names names ! i = names ! i @ ''.'' @ s"
  using dedup_loop_fresh[of "[]" names] dedup_loop_suffix[of i names "[]"]
  by (simp_all add: maybe_dedup_names_def length_dedup_loop)

lemma columns_set_columns:
  "length names = length (cols df) \<Longrightarrow> columns (set_columns df names) = names"
  by (simp add: columns_def set_columns_def)

lemma working_copy_frame:
  "working_copy explanations h = (df_eval, h2) \<Longrightarrow>
   df_eval = next_ref h \<and>
   frames h2 df_eval =
     (if distinct (columns (frames h explanations)) then frames h explanations
      else set_columns (frames h explanations) (maybe_dedup_names (columns (frames h explanations))))"
  by (auto simp: working_copy_def alloc_def store_def split: if_splits)

lemma example_dedup:
  "maybe_dedup_names [''the'', ''cat'', ''the''] = [''the'', ''cat'', ''the.1'']"
  by (simp add: maybe_dedup_names_def count_of_def digit_char_def mangle.simps str_nat.simps)

lemma example_working_copy:
  "working_copy 0 example_heap =
     (1, \<lparr>next_ref = 2,
          frames = (\<lambda>r. example_matrix)
            (1 := \<lparr>index = [''lime'', ''shap''],
                   cols = [(''the'', Floats [1 / 10, 3 / 10]), (''cat'', Floats [1 / 2, - 1 / 5]),
                           (''the.1'', Floats [0, 2 / 5])]\<rparr>)\<rparr>)"
  by (simp add: working_copy_def alloc_def store_def example_heap_def example_matrix_def
      columns_def set_columns_def example_dedup)

section \<open>The constructor\<close>

lemma add_metrics_raises_iff:
  "(add_metrics self ms = Inl ValueError) = (\<exists>m \<in> set ms. isinstance_BaseEvaluator (metric_class m))"
  by (induction ms arbitrary: self) auto

lemma add_metrics_buckets:
  "\<forall>m \<in> set ms. \<not> isinstance_BaseEvaluator (metric_class m) \<Longrightarrow>
   add_metrics self ms =
     Inr (self\<lparr>faithfulness_metrics :=
                faithfulness_metrics self @ filter (\<lambda>m. TYPE_METRIC m = ''faithfulness'') ms,
              plausibility_metrics :=
                plausibility_metrics self @ filter (\<lambda>m. TYPE_METRIC m = ''plausibility'') ms,
              other_measures :=
                other_measures self @
                  filter (\<lambda>m. TYPE_METRIC m \<noteq> ''faithfulness'' \<and> TYPE_METRIC m \<noteq> ''plausibility'') ms\<rparr>)"
  by (induction ms arbitrary: self) auto

section \<open>The evaluation loop and the store\<close>

lemma evaluate_row_step:
  "evaluate_row self sentence ex tr target args st e =
     foldl (step sentence ex tr target args e) st (evaluated self tr)"
  by (cases tr) (simp_all add: evaluate_row_def evaluated_def foldl_map step_def Let_def)

lemma step_snd:
  "snd (step sentence ex tr target args e st bm) = snd st @ [call_of sentence ex tr target args e bm]"
  by (simp add: step_def invoke_def call_of_def)

lemma foldl_step_snd:
  "snd (foldl (step sentence ex tr target args e) st bms) =
     snd st @ map (call_of sentence ex tr target args e) bms"
  by (induction bms arbitrary: st) (simp_all add: step_snd)

lemma foldl_rows_snd:
  "snd (foldl (evaluate_row self sentence ex tr target args) st es) =
     snd st @ concat (map (\<lambda>e. map (call_of sentence ex tr target args e) (evaluated self tr)) es)"
  by (induction es arbitrary: st) (simp_all add: evaluate_row_step foldl_step_snd)

lemma evaluation_loop_calls:
  "snd (evaluation_loop self sentence ex tr target args) =
     concat (map (\<lambda>e. map (call_of sentence ex tr target args e) (evaluated self tr)) (index ex))"
  by (simp add: evaluation_loop_def foldl_rows_snd)

lemma keys_record_score:
  "map fst (record_score t n e v) = add_key (map fst t) n"
  by (simp add: record_score_def add_key_def update_keys Let_def)

lemma distinct_record_score:
  "distinct (map fst t) \<Longrightarrow> distinct (map fst (record_score t n e v))"
  by (simp add: record_score_def distinct_update Let_def)

lemma scored_for_record_score:
  "scored_for (record_score t n e v) n' =
     (if n' = n then insert e (scored_for t n) else scored_for t n')"
  by (auto simp: scored_for_def record_score_def update_conv' dom_update Let_def split: option.splits)

lemma distinct_add_key: "distinct ks \<Longrightarrow> distinct (add_key ks n)"
  by (simp add: add_key_def)

lemma step_fst:
  "map fst (fst (step sentence ex tr target args e st bm)) = add_key (map fst (fst st)) (SHORT_NAME (snd bm))"
  "distinct (map fst (fst st)) \<Longrightarrow> distinct (map fst (fst (step sentence ex tr target args e st bm)))"
  "scored_for (fst (step sentence ex tr target args e st bm)) n =
     (if n = SHORT_NAME (snd bm) then insert e (scored_for (fst st) n) else scored_for (fst st) n)"
  by (simp_all add: step_def invoke_def keys_record_score scored_for_record_score distinct_add_key)

lemma foldl_step_fst:
  "map fst (fst (foldl (step sentence ex tr target args e) st bms)) =
     foldl add_key (map fst (fst st)) (map (\<lambda>bm. SHORT_NAME (snd bm)) bms)"
  "distinct (map fst (fst st)) \<Longrightarrow> distinct (map fst (fst (foldl (step sentence ex tr target args e) st bms)))"
  "scored_for (fst (foldl (step sentence ex tr target args e) st bms)) n =
     (if n \<in> (\<lambda>bm. SHORT_NAME (snd bm)) ` set bms then insert e (scored_for (fst st) n)
      else scored_for (fst st) n)"
proof (induction bms arbitrary: st)
  case Nil
  {
    case 1 show ?case by simp
  next
    case 2 then show ?case by simp
  next
    case 3 show ?case by simp
  }
next
  case (Cons bm bms)
  {
    case 1 show ?case by (simp add: Cons.IH(1) step_fst(1))
  next
    case 2 then show ?case by (simp add: Cons.IH(2) step_fst(2))
  next
    case 3 show ?case by (auto simp add: Cons.IH(3) step_fst(3))
  }
qed

lemma set_foldl_add_key: "set (foldl add_key ks ns) = set ks \<union> set ns"
  by (induction ns arbitrary: ks) (auto simp: add_key_def)

lemma foldl_add_key_present: "set ns \<subseteq> set ks \<Longrightarrow> foldl add_key ks ns = ks"
  by (induction ns arbitrary: ks) (auto simp: add_key_def)

lemma foldl_add_key_distinct: "distinct (ks @ ns) \<Longrightarrow> foldl add_key ks ns = ks @ ns"
  by (induction ns arbitrary: ks) (auto simp: add_key_def)

lemma foldl_rows_fst:
  "map fst (fst (foldl (evaluate_row self sentence ex tr target args) st es)) =
     (if es = [] then map fst (fst st)
      else foldl add_key (map fst (fst st)) (map (\<lambda>bm. SHORT_NAME (snd bm)) (evaluated self tr)))"
  "distinct (map fst (fst st)) \<Longrightarrow>
     distinct (map fst (fst (foldl (evaluate_row self sentence ex tr target args) st es)))"
  "scored_for (fst (foldl (evaluate_row self sentence ex tr target args) st es)) n =
     (if n \<in> (\<lambda>bm. SHORT_NAME (snd bm)) ` set (evaluated self tr) then set es \<union> scored_for (fst st) n
      else scored_for (fst st) n)"
proof (induction es arbitrary: st)
  case Nil
  {
    case 1 show ?case by simp
  next
    case 2 then show ?case by simp
  next
    case 3 show ?case by simp
  }
next
  case (Cons e es)
  let ?ns = "map (\<lambda>bm. SHORT_NAME (snd bm)) (evaluated self tr)"
  have k1: "\<And>st. map fst (fst (evaluate_row self sentence ex tr target args st e)) =
              foldl add_key (map fst (fst st)) ?ns"
    by (simp add: evaluate_row_step foldl_step_fst(1))
  have k2: "\<And>ks. foldl add_key (foldl add_key ks ?ns) ?ns = foldl add_key ks ?ns"
    by (rule foldl_add_key_present) (simp add: set_foldl_add_key)
  {
    case 1
    show ?case by (simp add: Cons.IH(1) k1 k2)
  next
    case 2
    then have "distinct (map fst (fst (evaluate_row self sentence ex tr target args st e)))"
      by (simp add: evaluate_row_step foldl_step_fst(2))
    then show ?case by (simp add: Cons.IH(2))
  next
    case 3
    have k3: "scored_for (fst (evaluate_row self sentence ex tr target args st e)) n =
               (if n \<in> (\<lambda>bm. SHORT_NAME (snd bm)) ` set (evaluated self tr)
                then insert e (scored_for (fst st) n) else scored_for (fst st) n)"
      by (simp add: evaluate_row_step foldl_step_fst(3))
    show ?case
      by (simp add: Cons.IH(3) k3)
  }
qed

lemma score_column_ok:
  "set labels \<subseteq> fst ` set inner \<Longrightarrow>
   \<exists>xs. score_column labels inner = Some xs \<and> length xs = length labels"
proof (induction labels)
  case Nil
  show ?case by (simp add: score_column_def)
next
  case (Cons l labels)
  then obtain xs where xs: "those (map (map_of inner) labels) = Some xs" "length xs = length labels"
    by (auto simp: score_column_def)
  from Cons.prems have "l \<in> fst ` set inner" by simp
  then obtain v where "map_of inner l = Some v"
    by (metis map_of_eq_None_iff not_None_eq)
  with xs show ?case by (simp add: score_column_def)
qed

lemma score_columns_ok:
  "\<forall>(n, inner) \<in> set t. set labels \<subseteq> fst ` set inner \<Longrightarrow>
   \<exists>cs. score_columns labels t = Some cs \<and> map fst cs = map fst t
      \<and> (\<forall>(n, s) \<in> set cs. len_series s = length labels)"
proof (induction t)
  case Nil
  show ?case by simp
next
  case (Cons p t)
  obtain n inner where p: "p = (n, inner)" by (cases p)
  from Cons.prems p have "set labels \<subseteq> fst ` set inner" by simp
  from score_column_ok[OF this] obtain xs
    where xs: "score_column labels inner = Some xs" "length xs = length labels" by blast
  from Cons.prems have "\<forall>(n, inner) \<in> set t. set labels \<subseteq> fst ` set inner" by simp
  from Cons.IH[OF this] obtain cs where cs: "score_columns labels t = Some cs" "map fst cs = map fst t"
    "\<forall>(n, s) \<in> set cs. len_series s = length labels" by blast
  show ?case using p xs cs by simp
qed

lemma scored_for_Nil: "scored_for [] n = {}"
  by (simp add: scored_for_def)

lemma evaluation_loop_keys:
  "map fst (fst (evaluation_loop self sentence ex tr target args)) =
     (if index ex = [] then []
      else foldl add_key [] (map (\<lambda>bm. SHORT_NAME (snd bm)) (evaluated self tr)))"
  by (simp add: evaluation_loop_def foldl_rows_fst(1))

lemma evaluation_loop_distinct_keys:
  "distinct (map fst (fst (evaluation_loop self sentence ex tr target args)))"
  by (simp add: evaluation_loop_def foldl_rows_fst(2))

lemma evaluation_loop_scored_for:
  "scored_for (fst (evaluation_loop self sentence ex tr target args)) n =
     (if n \<in> (\<lambda>bm. SHORT_NAME (snd bm)) ` set (evaluated self tr) then set (index ex) else {})"
  by (simp add: evaluation_loop_def foldl_rows_fst(3) scored_for_Nil)

lemma evaluation_loop_complete:
  "\<forall>(n, inner) \<in> set (fst (evaluation_loop self sentence ex tr target args)).
     set (index ex) \<subseteq> fst ` set inner"
proof (intro ballI, clarify)
  fix n inner x
  let ?t = "fst (evaluation_loop self sentence ex tr target args)"
  assume mem: "(n, inner) \<in> set ?t" and x: "x \<in> set (index ex)"
  from mem evaluation_loop_distinct_keys[of self sentence ex tr target args]
  have mo: "map_of ?t n = Some inner" by simp
  from mem have "n \<in> set (map fst ?t)" by force
  with x have "n \<in> (\<lambda>bm. SHORT_NAME (snd bm)) ` set (evaluated self tr)"
    by (auto simp: evaluation_loop_keys set_foldl_add_key split: if_splits)
  then have "scored_for ?t n = set (index ex)"
    by (simp add: evaluation_loop_scored_for)
  with mo x show "x \<in> fst ` set inner" by (simp add: scored_for_def)
qed

lemma cell_record_score:
  "cell (record_score t n e v) n' e' = (if n' = n \<and> e' = e then Some v else cell t n' e')"
  by (auto simp: cell_def record_score_def update_conv' Let_def split: option.splits)

lemma step_cell:
  "cell (fst (step sentence ex tr target args e st bm)) n e' =
     (if n = SHORT_NAME (snd bm) \<and> e' = e then Some (score_of sentence ex tr target args e bm)
      else cell (fst st) n e')"
  by (simp add: step_def invoke_def cell_record_score score_of_def)

lemma foldl_step_cell:
  "cell (fst (foldl (step sentence ex tr target args e) st bms)) n e' =
     (if e' = e \<and> named n bms \<noteq> [] then Some (score_of sentence ex tr target args e (last (named n bms)))
      else cell (fst st) n e')"
  by (induction bms arbitrary: st) (auto simp: step_cell named_def)

lemma foldl_rows_cell:
  "cell (fst (foldl (evaluate_row self sentence ex tr target args) st es)) n e' =
     (if e' \<in> set es \<and> named n (evaluated self tr) \<noteq> []
      then Some (score_of sentence ex tr target args e' (last (named n (evaluated self tr))))
      else cell (fst st) n e')"
  by (induction es arbitrary: st) (auto simp: evaluate_row_step foldl_step_cell)

lemma evaluation_loop_cell:
  "cell (fst (evaluation_loop self sentence ex tr target args)) n e =
     (if e \<in> set (index ex) \<and> named n (evaluated self tr) \<noteq> []
      then Some (score_of sentence ex tr target args e (last (named n (evaluated self tr))))
      else None)"
  unfolding evaluation_loop_def foldl_rows_cell by (simp add: cell_def)

lemma score_column_values:
  "score_column labels inner = Some xs \<Longrightarrow> map Some xs = map (map_of inner) labels"
  unfolding score_column_def
proof (induction labels arbitrary: xs)
  case Nil
  then show ?case by simp
next
  case (Cons l labels)
  then show ?case by (auto split: option.splits)
qed

lemma score_columns_values:
  "score_columns labels t = Some cs \<Longrightarrow> (n, inner) \<in> set t \<Longrightarrow>
   \<exists>xs. (n, Floats xs) \<in> set cs \<and> map Some xs = map (map_of inner) labels"
proof (induction t arbitrary: cs)
  case Nil
  then show ?case by simp
next
  case (Cons p t)
  obtain n' inner' where p: "p = (n', inner')" by (cases p)
  from Cons.prems(1) p obtain xs cs' where xs: "score_column labels inner' = Some xs"
    and cs': "score_columns labels t = Some cs'" and cs: "cs = (n', Floats xs) # cs'"
    by (auto split: option.splits)
  show ?case
  proof (cases "(n, inner) = (n', inner')")
    case True
    with xs cs score_column_values[OF xs] show ?thesis by auto
  next
    case False
    with Cons.prems(2) p have "(n, inner) \<in> set t" by auto
    from Cons.IH[OF cs' this] cs show ?thesis by auto
  qed
qed

lemma score_columns_cell:
  assumes "score_columns labels t = Some cs"
    and "\<forall>e \<in> set labels. cell t n e = Some (f e)"
    and "labels \<noteq> []"
  shows "(n, Floats (map f labels)) \<in> set cs"
proof -
  from assms(2,3) obtain inner where inner: "map_of t n = Some inner"
    by (cases labels) (auto simp: cell_def split: option.splits)
  then have mem: "(n, inner) \<in> set t" by (rule map_of_SomeD)
  from score_columns_values[OF assms(1) mem] obtain xs
    where xs: "(n, Floats xs) \<in> set cs" "map Some xs = map (map_of inner) labels" by blast
  from assms(2) inner have "map (map_of inner) labels = map (\<lambda>e. Some (f e)) labels"
    by (simp add: cell_def)
  with xs(2) have "map Some xs = map Some (map f labels)" by simp
  then have "xs = map f labels" by (rule map_injective) simp
  with xs(1) show ?thesis by simp
qed

lemma concat_scores_loop:
  assumes "index df_eval = index ex"
    and "distinct (index ex) \<or> fst (evaluation_loop self sentence ex tr target args) = []"
  shows "\<exists>cs. concat_scores df_eval (fst (evaluation_loop self sentence ex tr target args))
            = Inr (df_eval\<lparr>cols := cols df_eval @ cs\<rparr>)
        \<and> map fst cs = map fst (fst (evaluation_loop self sentence ex tr target args))
        \<and> (\<forall>(n, s) \<in> set cs. len_series s = length (index ex))
        \<and> score_columns (index ex) (fst (evaluation_loop self sentence ex tr target args)) = Some cs"
proof (cases "fst (evaluation_loop self sentence ex tr target args) = []")
  case True
  then show ?thesis by (auto simp: concat_scores_def intro!: exI[of _ "[]"])
next
  case False
  with assms have d: "distinct (index df_eval)" by simp
  have "\<forall>(n, inner) \<in> set (fst (evaluation_loop self sentence ex tr target args)).
          set (index ex) \<subseteq> fst ` set inner"
    by (rule evaluation_loop_complete)
  from score_columns_ok[OF this]
  obtain cs where "score_columns (index ex) (fst (evaluation_loop self sentence ex tr target args)) = Some cs"
    "map fst cs = map fst (fst (evaluation_loop self sentence ex tr target args))"
    "\<forall>(n, s) \<in> set cs. len_series s = length (index ex)" by blast
  with False d assms(1) show ?thesis
    by (intro exI[of _ cs]) (simp add: concat_scores_def)
qed

lemma rank_higher_frame:
  "rank_higher r cs h = (e, h') \<Longrightarrow>
   next_ref h' = next_ref h \<and> (\<forall>r'. r' \<noteq> r \<longrightarrow> frames h' r' = frames h r')"
proof (induction cs arbitrary: h)
  case Nil
  then show ?case by simp
next
  case (Cons c cs)
  show ?case
  proof (cases "invert_ranks (length (index (frames h r))) (rankdata_dense (ravel (getitem (frames h r) c)))")
    case (Inl a)
    with Cons.prems show ?thesis by (simp add: Let_def)
  next
    case (Inr v)
    show ?thesis
    proof (cases "setitem (frames h r) (c @ ''_r'') (Ints v)")
      case (Inl a)
      with Inr Cons.prems show ?thesis by (simp add: Let_def)
    next
      case (Inr df)
      with \<open>invert_ranks _ _ = Inr v\<close> Cons.prems
      have "rank_higher r cs (store h r df) = (e, h')" by (simp add: Let_def)
      from Cons.IH[OF this] show ?thesis by (simp add: store_def)
    qed
  qed
qed

lemma rank_lower_frame:
  "rank_lower r cs h = (e, h') \<Longrightarrow>
   next_ref h' = next_ref h \<and> (\<forall>r'. r' \<noteq> r \<longrightarrow> frames h' r' = frames h r')"
proof (induction cs arbitrary: h)
  case Nil
  then show ?case by simp
next
  case (Cons c cs)
  show ?case
  proof (cases "setitem (frames h r) (c @ ''_r'') (Ints (rankdata_dense (ravel (getitem (frames h r) c))))")
    case (Inl a)
    with Cons.prems show ?thesis by simp
  next
    case (Inr df)
    with Cons.prems have "rank_lower r cs (store h r df) = (e, h')" by simp
    from Cons.IH[OF this] show ?thesis by (simp add: store_def)
  qed
qed

lemma rank_explainers_frame:
  assumes "rank_explainers self r score_cols h = (res, h')"
  shows "next_ref h \<le> next_ref h' \<and> (\<forall>r'. r' \<noteq> r \<and> r' < next_ref h \<longrightarrow> frames h' r' = frames h r')"
proof -
  obtain e1 h1 where h1: "rank_higher r (show_cols_for False (evaluation_measures self) (frames h r)) h = (e1, h1)"
    by force
  obtain e2 h2 where h2: "rank_lower r (show_cols_for True (evaluation_measures self) (frames h1 r)) h1 = (e2, h2)"
    by force
  note f1 = rank_higher_frame[OF h1] and f2 = rank_lower_frame[OF h2]
  from assms h1 h2 f1 f2 show ?thesis
    by (auto simp: rank_explainers_def Let_def alloc_def split: option.splits sum.splits)
qed

lemma working_copy_heap:
  assumes "working_copy explanations h = (df_eval, h2)"
  shows "df_eval = next_ref h" "next_ref h2 = Suc (next_ref h)"
    "\<And>r. r \<noteq> next_ref h \<Longrightarrow> frames h2 r = frames h r"
  using assms by (auto simp: working_copy_def alloc_def store_def split: if_splits)

lemma working_copy_index:
  assumes "working_copy explanations h = (df_eval, h2)"
  shows "index (frames h2 df_eval) = index (frames h explanations)"
  using working_copy_frame[OF assms] by (auto simp: set_columns_def)

lemma evaluate_explainers_calls:
  assumes "explanations < next_ref h"
  shows "fst (snd (evaluate_explainers self sentence explanations tr rank target args h)) =
           snd (evaluation_loop self sentence (frames h explanations) tr target args)"
proof -
  obtain df_eval h2 where wc: "working_copy explanations h = (df_eval, h2)" by force
  from working_copy_heap(3)[OF wc, of explanations] assms
  have ex: "frames h2 explanations = frames h explanations" by simp
  show ?thesis
    by (simp add: evaluate_explainers_def wc ex alloc_def split: prod.splits sum.splits)
qed

lemma evaluate_explainers_no_rank:
  assumes al: "explanations < next_ref h"
    and d: "distinct (index (frames h explanations))"
    and wc: "working_copy explanations h = (df_eval, h2)"
  shows "\<exists>cs calls h3.
           evaluate_explainers self sentence explanations tr False target args h = (Inr (next_ref h2), calls, h3)
         \<and> frames h3 (next_ref h2) = (frames h2 df_eval)\<lparr>cols := cols (frames h2 df_eval) @ cs\<rparr>
         \<and> map fst cs = map fst (fst (evaluation_loop self sentence (frames h explanations) tr target args))
         \<and> score_columns (index (frames h explanations))
               (fst (evaluation_loop self sentence (frames h explanations) tr target args)) = Some cs"
proof -
  from working_copy_heap(3)[OF wc, of explanations] al
  have ex: "frames h2 explanations = frames h explanations" by simp
  have "index (frames h2 df_eval) = index (frames h explanations)"
    by (rule working_copy_index[OF wc])
  from concat_scores_loop[OF this, of self sentence tr target args] d
  obtain cs where cs:
    "concat_scores (frames h2 df_eval) (fst (evaluation_loop self sentence (frames h explanations) tr target args))
       = Inr ((frames h2 df_eval)\<lparr>cols := cols (frames h2 df_eval) @ cs\<rparr>)"
    "map fst cs = map fst (fst (evaluation_loop self sentence (frames h explanations) tr target args))"
    "score_columns (index (frames h explanations))
       (fst (evaluation_loop self sentence (frames h explanations) tr target args)) = Some cs"
    by blast
  obtain t calls where el: "evaluation_loop self sentence (frames h explanations) tr target args = (t, calls)"
    by force
  from cs show ?thesis
    by (auto simp: evaluate_explainers_def wc ex alloc_def el intro!: exI[of _ cs])
qed

lemma evaluate_explainers_no_rank_column:
  assumes al: "explanations < next_ref h"
    and d: "distinct (index (frames h explanations))"
    and ne: "index (frames h explanations) \<noteq> []"
    and cells: "\<forall>e \<in> set (index (frames h explanations)).
        cell (fst (evaluation_loop self sentence (frames h explanations) tr target args)) n e = Some (f e)"
  shows "\<exists>out calls h'.
           evaluate_explainers self sentence explanations tr False target args h = (Inr out, calls, h')
         \<and> (n, Floats (map f (index (frames h explanations)))) \<in> set (cols (frames h' out))"
proof -
  obtain df_eval h2 where wc: "working_copy explanations h = (df_eval, h2)" by force
  from evaluate_explainers_no_rank[OF al d wc, of self sentence tr target args]
  obtain cs calls h3 where r:
    "evaluate_explainers self sentence explanations tr False target args h = (Inr (next_ref h2), calls, h3)"
    "frames h3 (next_ref h2) = (frames h2 df_eval)\<lparr>cols := cols (frames h2 df_eval) @ cs\<rparr>"
    "score_columns (index (frames h explanations))
       (fst (evaluation_loop self sentence (frames h explanations) tr target args)) = Some cs"
    by blast
  from score_columns_cell[OF r(3) cells ne]
  have "(n, Floats (map f (index (frames h explanations)))) \<in> set cs" .
  with r(1,2) show ?thesis by simp
qed

lemma evaluate_row_tokenizer:
  "evaluate_row (self\<lparr>tokenizer := t\<rparr>) sentence ex tr target args = evaluate_row self sentence ex tr target args"
  by (intro ext, cases tr) (simp_all add: evaluate_row_def Let_def)

lemma evaluation_measures_tokenizer:
  "evaluation_measures (self\<lparr>tokenizer := t\<rparr>) = evaluation_measures self"
  by (simp add: evaluation_measures_def)

lemma rank_explainers_tokenizer:
  "rank_explainers (self\<lparr>tokenizer := t\<rparr>) = rank_explainers self"
  by (intro ext) (unfold rank_explainers_def evaluation_measures_tokenizer, rule refl)

lemma evaluate_explainers_tokenizer:
  "evaluate_explainers (self\<lparr>tokenizer := t\<rparr>) sentence explanations tr rank target args h =
   evaluate_explainers self sentence explanations tr rank target args h"
  unfolding evaluate_explainers_def evaluation_loop_def evaluate_row_tokenizer
    rank_explainers_tokenizer by (rule refl)

section \<open>Dense ranks\<close>

lemma length_rankdata_dense: "length (rankdata_dense a) = length a"
  by (simp add: rankdata_dense_def)

lemma rankdata_dense_nth:
  "i < length a \<Longrightarrow> rankdata_dense a ! i = int (card {y \<in> set a. y \<le> a ! i})"
proof -
  assume i: "i < length a"
  have "set (filter (\<lambda>y. y \<le> a ! i) a) = {y \<in> set a. y \<le> a ! i}" by auto
  then have "length (remdups (filter (\<lambda>y. y \<le> a ! i) a)) = card {y \<in> set a. y \<le> a ! i}"
    by (simp add: length_remdups_card_conv)
  with i show ?thesis by (simp add: rankdata_dense_def)
qed

lemma below_card_bounds:
  fixes a :: "real list"
  assumes "x \<in> set a"
  shows "1 \<le> card {y \<in> set a. y \<le> x}" and "card {y \<in> set a. y \<le> x} \<le> card (set a)"
proof -
  have fin: "finite {y \<in> set a. y \<le> x}" by simp
  from assms have "x \<in> {y \<in> set a. y \<le> x}" by simp
  with fin have "0 < card {y \<in> set a. y \<le> x}" by (metis card_gt_0_iff empty_iff)
  then show "1 \<le> card {y \<in> set a. y \<le> x}" by linarith
  show "card {y \<in> set a. y \<le> x} \<le> card (set a)"
    by (rule card_mono) auto
qed

lemma below_card_strict:
  fixes a :: "real list"
  assumes "y \<in> set a" "x < y"
  shows "card {z \<in> set a. z \<le> x} < card {z \<in> set a. z \<le> y}"
proof (rule psubset_card_mono)
  show "finite {z \<in> set a. z \<le> y}" by simp
  from assms show "{z \<in> set a. z \<le> x} \<subset> {z \<in> set a. z \<le> y}" by force
qed

lemma below_card_image:
  fixes a :: "real list"
  shows "(\<lambda>x. card {y \<in> set a. y \<le> x}) ` set a = {1..card (set a)}"
proof (rule card_subset_eq)
  let ?f = "\<lambda>x. card {y \<in> set a. y \<le> x}"
  show "finite {1..card (set a)}" by simp
  show "?f ` set a \<subseteq> {1..card (set a)}"
    using below_card_bounds[of _ a] by auto
  have "inj_on ?f (set a)"
  proof (rule inj_onI)
    fix x y assume x: "x \<in> set a" and y: "y \<in> set a" and eq: "?f x = ?f y"
    show "x = y"
    proof (rule ccontr)
      assume "x \<noteq> y"
      then consider "x < y" | "y < x" by fastforce
      then show False
        using below_card_strict[OF y, of x] below_card_strict[OF x, of y] eq by cases simp_all
    qed
  qed
  then have "card (?f ` set a) = card (set a)" by (rule card_image)
  then show "card (?f ` set a) = card {1..card (set a)}" by simp
qed

lemma set_rankdata_dense: "set (rankdata_dense a) = int ` {1..card (set a)}"
proof -
  have "set (rankdata_dense a) = int ` (\<lambda>x. card {y \<in> set a. y \<le> x}) ` set a"
  proof -
    have "\<And>x. length (remdups (filter (\<lambda>y. y \<le> x) a)) = card {y \<in> set a. y \<le> x}"
    proof -
      fix x
      have "set (filter (\<lambda>y. y \<le> x) a) = {y \<in> set a. y \<le> x}" by auto
      then show "length (remdups (filter (\<lambda>y. y \<le> x) a)) = card {y \<in> set a. y \<le> x}"
        by (simp add: length_remdups_card_conv)
    qed
    then show ?thesis by (simp add: rankdata_dense_def image_image)
  qed
  then show ?thesis by (simp add: below_card_image)
qed

lemma Max_rankdata_dense:
  assumes "a \<noteq> []"
  shows "Max (set (rankdata_dense a)) = int (card (set a))"
proof (rule Max_eqI)
  show "finite (set (rankdata_dense a))" by simp
  show "\<And>y. y \<in> set (rankdata_dense a) \<Longrightarrow> y \<le> int (card (set a))"
    by (auto simp: set_rankdata_dense)
  from assms have "1 \<le> card (set a)"
    by (metis One_nat_def Suc_leI card_gt_0_iff List.finite_set set_empty)
  then show "int (card (set a)) \<in> set (rankdata_dense a)"
    by (simp add: set_rankdata_dense)
qed

lemma rank_of_Max:
  fixes a :: "real list"
  assumes "i < length a" "a ! i = Max (set a)"
  shows "rankdata_dense a ! i = int (card (set a))"
proof -
  have "{y \<in> set a. y \<le> Max (set a)} = set a" by auto
  with assms show ?thesis by (simp add: rankdata_dense_nth)
qed

lemma rank_of_Min:
  fixes a :: "real list"
  assumes "i < length a" "a ! i = Min (set a)"
  shows "rankdata_dense a ! i = 1"
proof -
  from assms(1) have ne: "set a \<noteq> {}" by auto
  have "{y \<in> set a. y \<le> Min (set a)} = {Min (set a)}"
  proof
    show "{y \<in> set a. y \<le> Min (set a)} \<subseteq> {Min (set a)}"
      using Min_le[of "set a"] by (auto intro: antisym)
    show "{Min (set a)} \<subseteq> {y \<in> set a. y \<le> Min (set a)}"
      using Min_in[of "set a"] ne by simp
  qed
  with assms show ?thesis by (simp add: rankdata_dense_nth)
qed

lemma rank_ties:
  "i < length a \<Longrightarrow> j < length a \<Longrightarrow> a ! i = a ! j \<Longrightarrow> rankdata_dense a ! i = rankdata_dense a ! j"
  by (simp add: rankdata_dense_nth)

lemma rank_order:
  assumes "i < length a" "j < length a" "a ! i < a ! j"
  shows "rankdata_dense a ! i < rankdata_dense a ! j"
  using assms below_card_strict[of "a ! j" a "a ! i"] by (simp add: rankdata_dense_nth)

lemma card_set_le_length: "card (set a) \<le> length a"
  by (rule card_length)

section \<open>The ranking loops\<close>

lemma setitem_put:
  "setitem df c v =
     (if len_series v \<noteq> length (index df) then Inl ValueError else Inr (put_column df c v))"
  by (simp add: setitem_def put_column_def)

lemma index_put [simp]: "index (put_column df c v) = index df"
  by (simp add: put_column_def)

lemma map_fst_replace:
  "map fst (map (\<lambda>(n, s). if n = c then (n, v) else (n, s)) xs) = map fst xs"
  by (induction xs) auto

lemma columns_put:
  "columns (put_column df c v) = (if c \<in> set (columns df) then columns df else columns df @ [c])"
  by (auto simp: put_column_def columns_def split_def)

lemma distinct_put: "distinct (columns df) \<Longrightarrow> distinct (columns (put_column df c v))"
  by (simp add: columns_put)

lemma set_columns_put: "set (columns (put_column df c v)) = insert c (set (columns df))"
  by (auto simp: columns_put)

lemma filter_replace:
  "distinct (map fst xs) \<Longrightarrow> c \<in> set (map fst xs) \<Longrightarrow>
   map snd (filter (\<lambda>(n, s). n = x) (map (\<lambda>(n, s). if n = c then (n, v) else (n, s)) xs)) =
     (if x = c then [v] else map snd (filter (\<lambda>(n, s). n = x) xs))"
proof (induction xs)
  case Nil
  then show ?case by simp
next
  case (Cons p xs)
  obtain n s where p: "p = (n, s)" by (cases p)
  show ?case
  proof (cases "n = c")
    case True
    with Cons.prems p have notin: "c \<notin> set (map fst xs)" by simp
    then have same: "map (\<lambda>(n, s). if n = c then (n, v) else (n, s)) xs = xs"
      by (induction xs) auto
    from notin have none: "filter (\<lambda>(n, s). n = c) xs = []"
      by (induction xs) auto
    show ?thesis using True p same none by auto
  next
    case False
    with Cons.prems p have "c \<in> set (map fst xs)" "distinct (map fst xs)" by auto
    from Cons.IH[OF this(2,1)] False p show ?thesis by auto
  qed
qed

lemma filter_absent: "c \<notin> set (map fst xs) \<Longrightarrow> filter (\<lambda>(n, s). n = c) xs = []"
  by (induction xs) auto

lemma getitem_put:
  assumes "distinct (columns df)"
  shows "getitem (put_column df c v) x = (if x = c then [v] else getitem df x)"
proof (cases "c \<in> set (columns df)")
  case True
  with assms show ?thesis
    by (simp add: getitem_def put_column_def columns_def filter_replace)
next
  case False
  then have "filter (\<lambda>(n, s). n = c) (cols df) = []"
    by (simp add: columns_def filter_absent)
  with False show ?thesis
    by (auto simp: getitem_def put_column_def)
qed

lemma getitem_single:
  assumes "distinct (columns df)" "c \<in> set (columns df)"
  shows "\<exists>s. getitem df c = [s]"
proof -
  have "distinct (map fst xs) \<Longrightarrow> c \<in> set (map fst xs) \<Longrightarrow>
        \<exists>s. map snd (filter (\<lambda>(n, s). n = c) xs) = [s]" for xs :: "(string \<times> series) list"
  proof (induction xs)
    case Nil
    then show ?case by simp
  next
    case (Cons p xs)
    obtain n s where p: "p = (n, s)" by (cases p)
    show ?case
    proof (cases "n = c")
      case True
      with Cons.prems p have "c \<notin> set (map fst xs)" by simp
      then have "filter (\<lambda>(n, s). n = c) xs = []" by (rule filter_absent)
      with True p show ?thesis by simp
    next
      case False
      with Cons.prems p have "c \<in> set (map fst xs)" "distinct (map fst xs)" by auto
      from Cons.IH[OF this(2,1)] False p show ?thesis by simp
    qed
  qed
  with assms show ?thesis by (simp add: getitem_def columns_def)
qed

lemma ravel_single: "ravel [s] = to_float s"
proof -
  have "concat (transpose [xs]) = xs" for xs :: "real list"
    by (induction xs) (auto simp: transpose.simps)
  then show ?thesis by (simp add: ravel_def)
qed

lemma length_to_float: "length (to_float s) = len_series s"
  by (cases s) simp_all

lemma rankable_len:
  assumes "rankable df (c # cs)"
  shows "length (ravel (getitem df c)) = length (index df)"
proof -
  from assms have d: "distinct (columns df)" and c: "c \<in> set (columns df)"
    by (simp_all add: rankable_def)
  from getitem_single[OF d c] obtain s where s: "getitem df c = [s]" by blast
  with assms have "len_series s = length (index df)" by (simp add: rankable_def)
  with s show ?thesis by (simp add: ravel_single length_to_float)
qed

lemma rankable_step:
  assumes "rankable df (c # cs)" "length v = length (index df)"
  shows "rankable (put_column df x (Ints v)) cs"
  using assms
  by (auto simp: rankable_def distinct_put set_columns_put getitem_put)

lemma store_store [simp]: "store (store h r a) r b = store h r b"
  by (simp add: store_def)

lemma frames_store [simp]: "frames (store h r a) r = a"
  by (simp add: store_def)

lemma store_same [simp]: "store h r (frames h r) = h"
  by (simp add: store_def)

lemma rank_lower_run:
  "rankable (frames h r) cs \<Longrightarrow>
   rank_lower r cs h = (None, store h r (add_ranks rankdata_dense cs (frames h r)))"
proof (induction cs arbitrary: h)
  case Nil
  show ?case by (simp add: add_ranks_def)
next
  case (Cons c cs)
  let ?v = "rankdata_dense (ravel (getitem (frames h r) c))"
  let ?df = "put_column (frames h r) (c @ ''_r'') (Ints ?v)"
  have len: "length ?v = length (index (frames h r))"
    by (simp add: length_rankdata_dense rankable_len[OF Cons.prems])
  have "rankable (frames (store h r ?df) r) cs"
    using rankable_step[OF Cons.prems len] by simp
  from Cons.IH[OF this] len show ?case
    by (simp add: setitem_put add_ranks_def)
qed

lemma length_inverted: "length (inverted n xs) = length xs"
  by (simp add: inverted_def length_rankdata_dense)

lemma rank_higher_run:
  "rankable (frames h r) cs \<Longrightarrow> cs = [] \<or> index (frames h r) \<noteq> [] \<Longrightarrow>
   n = length (index (frames h r)) \<Longrightarrow>
   rank_higher r cs h = (None, store h r (add_ranks (inverted n) cs (frames h r)))"
proof (induction cs arbitrary: h)
  case Nil
  show ?case by (simp add: add_ranks_def)
next
  case (Cons c cs)
  let ?xs = "ravel (getitem (frames h r) c)"
  let ?df = "put_column (frames h r) (c @ ''_r'') (Ints (inverted n ?xs))"
  have lx: "length ?xs = length (index (frames h r))"
    by (rule rankable_len[OF Cons.prems(1)])
  with Cons.prems(2) have ne: "rankdata_dense ?xs \<noteq> []"
    by (metis length_rankdata_dense length_0_conv list.distinct(1))
  have len: "length (inverted n ?xs) = length (index (frames h r))"
    by (simp add: length_inverted lx)
  have a: "rankable (frames (store h r ?df) r) cs"
    using rankable_step[OF Cons.prems(1) len] by simp
  have b: "cs = [] \<or> index (frames (store h r ?df) r) \<noteq> []"
    using Cons.prems(2) by simp
  have c: "n = length (index (frames (store h r ?df) r))"
    using Cons.prems(3) by simp
  from Cons.IH[OF a b c] ne len Cons.prems(3) show ?case
    by (simp add: setitem_put add_ranks_def invert_ranks_def inverted_def Let_def)
qed

lemma append_r_inj: "a @ ''_r'' = b @ ''_r'' \<Longrightarrow> a = b"
  by simp

lemma add_ranks_all:
  "distinct (columns df) \<Longrightarrow> \<forall>c \<in> set cs. c @ ''_r'' \<notin> set cs \<Longrightarrow>
   index (add_ranks f cs df) = index df
   \<and> distinct (columns (add_ranks f cs df))
   \<and> set (columns (add_ranks f cs df)) = set (columns df) \<union> (\<lambda>c. c @ ''_r'') ` set cs
   \<and> (\<forall>x. x \<notin> (\<lambda>c. c @ ''_r'') ` set cs \<longrightarrow> getitem (add_ranks f cs df) x = getitem df x)
   \<and> (\<forall>c \<in> set cs. getitem (add_ranks f cs df) (c @ ''_r'') = [Ints (f (ravel (getitem df c)))])"
proof (induction cs arbitrary: df)
  case Nil
  then show ?case by (simp add: add_ranks_def)
next
  case (Cons a cs)
  note d = Cons.prems(1) and nr = Cons.prems(2)
  let ?df1 = "put_column df (a @ ''_r'') (Ints (f (ravel (getitem df a))))"
  have unfold: "add_ranks f (a # cs) df = add_ranks f cs ?df1"
    by (simp add: add_ranks_def)
  have d1: "distinct (columns ?df1)" using d by (rule distinct_put)
  have nr1: "\<forall>c \<in> set cs. c @ ''_r'' \<notin> set cs" using nr by simp
  from Cons.IH[OF d1 nr1]
  have ih1: "index (add_ranks f cs ?df1) = index ?df1"
    and ih2: "distinct (columns (add_ranks f cs ?df1))"
    and ih3: "set (columns (add_ranks f cs ?df1)) = set (columns ?df1) \<union> (\<lambda>c. c @ ''_r'') ` set cs"
    and ih4: "\<And>x. x \<notin> (\<lambda>c. c @ ''_r'') ` set cs \<Longrightarrow> getitem (add_ranks f cs ?df1) x = getitem ?df1 x"
    and ih5: "\<And>c. c \<in> set cs \<Longrightarrow>
                getitem (add_ranks f cs ?df1) (c @ ''_r'') = [Ints (f (ravel (getitem ?df1 c)))]"
    by blast+
  have i1: "index (add_ranks f (a # cs) df) = index df"
    unfolding unfold by (simp add: ih1)
  have i2: "distinct (columns (add_ranks f (a # cs) df))"
    unfolding unfold by (rule ih2)
  have i3: "set (columns (add_ranks f (a # cs) df)) =
              set (columns df) \<union> (\<lambda>c. c @ ''_r'') ` set (a # cs)"
    unfolding unfold by (simp add: ih3 set_columns_put)
  have i4: "getitem (add_ranks f (a # cs) df) x = getitem df x"
    if "x \<notin> (\<lambda>c. c @ ''_r'') ` set (a # cs)" for x
  proof -
    from that have "x \<notin> (\<lambda>c. c @ ''_r'') ` set cs" "x \<noteq> a @ ''_r''" by auto
    then show ?thesis
      unfolding unfold by (simp add: ih4 getitem_put[OF d])
  qed
  have i5: "getitem (add_ranks f (a # cs) df) (c @ ''_r'') = [Ints (f (ravel (getitem df c)))]"
    if "c \<in> set (a # cs)" for c
  proof (cases "c \<in> set cs")
    case True
    with nr have "c \<noteq> a @ ''_r''" by auto
    then have "getitem ?df1 c = getitem df c" by (simp add: getitem_put[OF d])
    with True show ?thesis
      unfolding unfold by (simp add: ih5)
  next
    case False
    with that have ca: "c = a" by simp
    with False have "a @ ''_r'' \<notin> (\<lambda>c. c @ ''_r'') ` set cs" by auto
    then have "getitem (add_ranks f cs ?df1) (a @ ''_r'') = getitem ?df1 (a @ ''_r'')"
      by (rule ih4)
    then show ?thesis
      unfolding unfold ca by (simp add: getitem_put[OF d])
  qed
  from i1 i2 i3 i4 i5 show ?case by blast
qed

lemma set_show_cols_for:
  "set (show_cols_for asc ms df) =
     {SHORT_NAME m | m. m \<in> set ms \<and> BEST_SORTING_ASCENDING m = Some asc \<and> SHORT_NAME m \<in> set (columns df)}"
  by (auto simp: show_cols_for_def)

lemma in_show_cols_for:
  "m \<in> set ms \<Longrightarrow> BEST_SORTING_ASCENDING m = Some asc \<Longrightarrow> SHORT_NAME m \<in> set (columns df) \<Longrightarrow>
   SHORT_NAME m \<in> set (show_cols_for asc ms df)"
  by (force simp: show_cols_for_def)

lemma show_cols_for_cong:
  "(\<And>m. m \<in> set ms \<Longrightarrow> (SHORT_NAME m \<in> set (columns df1)) = (SHORT_NAME m \<in> set (columns df))) \<Longrightarrow>
   show_cols_for asc ms df1 = show_cols_for asc ms df"
  unfolding show_cols_for_def by (rule arg_cong[where f = "map SHORT_NAME"], rule filter_cong) auto

lemma select_columns_ok:
  "set labels \<subseteq> set (columns df) \<Longrightarrow>
   select_columns df labels =
     Inr (df\<lparr>cols := concat (map (\<lambda>c. filter (\<lambda>(n, s). n = c) (cols df)) labels)\<rparr>)"
  by (auto simp: select_columns_def)

lemma filter_key_fst:
  "distinct (map fst xs) \<Longrightarrow> c \<in> set (map fst xs) \<Longrightarrow> map fst (filter (\<lambda>(n, s). n = c) xs) = [c]"
proof (induction xs)
  case Nil
  then show ?case by simp
next
  case (Cons p xs)
  obtain n s where p: "p = (n, s)" by (cases p)
  show ?case
  proof (cases "n = c")
    case True
    with Cons.prems p have "c \<notin> set (map fst xs)" by simp
    then have "filter (\<lambda>(n, s). n = c) xs = []" by (rule filter_absent)
    with True p show ?thesis by simp
  next
    case False
    with Cons.prems p have "c \<in> set (map fst xs)" "distinct (map fst xs)" by auto
    from Cons.IH[OF this(2,1)] False p show ?thesis by simp
  qed
qed

lemma columns_selected:
  "distinct (columns df) \<Longrightarrow> set labels \<subseteq> set (columns df) \<Longrightarrow>
   map fst (concat (map (\<lambda>c. filter (\<lambda>(n, s). n = c) (cols df)) labels)) = labels"
  by (induction labels) (simp_all add: columns_def filter_key_fst)

lemma getitem_selected:
  "map snd (filter (\<lambda>(n, s). n = x) (concat (map (\<lambda>c. filter (\<lambda>(n, s). n = c) xs) labels))) =
     concat (replicate (count_list labels x) (map snd (filter (\<lambda>(n, s). n = x) xs)))"
proof (induction labels)
  case Nil
  show ?case by simp
next
  case (Cons l labels)
  have "filter (\<lambda>(n, s). n = x) (filter (\<lambda>(n, s). n = l) xs) =
          (if l = x then filter (\<lambda>(n, s). n = x) xs else [])"
    by (induction xs) auto
  with Cons.IH show ?case by simp
qed

lemma count_list_pairs:
  "x \<notin> set ks \<Longrightarrow> count_list (concat (map (\<lambda>k. [k, k @ ''_r'']) ks)) x =
     count_list (map (\<lambda>k. k @ ''_r'') ks) x"
  by (induction ks) auto

lemma count_list_distinct:
  "distinct ks \<Longrightarrow> count_list ks k = (if k \<in> set ks then 1 else 0)"
  by (induction ks) auto

lemma count_list_absent: "x \<notin> set xs \<Longrightarrow> count_list xs x = 0"
  by (induction xs) auto

lemma count_rank_name:
  assumes "distinct ks" "n \<in> set ks" "n @ ''_r'' \<notin> set ks"
  shows "count_list (concat (map (\<lambda>k. [k, k @ ''_r'']) ks)) (n @ ''_r'') = 1"
proof -
  have inj: "inj (\<lambda>k :: string. k @ ''_r'')" by (rule injI) simp
  have "count_list (map (\<lambda>k. k @ ''_r'') ks) (n @ ''_r'') = count_list ks n"
    by (induction ks) auto
  with assms show ?thesis
    by (simp add: count_list_pairs count_list_distinct)
qed

lemma next_ref_store [simp]: "next_ref (store h r a) = next_ref h"
  by (simp add: store_def)

lemma fst_alloc [simp]: "fst (alloc h a) = next_ref h"
  by (simp add: alloc_def)

lemma frames_alloc: "frames (snd (alloc h a)) (next_ref h) = a"
  by (simp add: alloc_def)

lemma rank_explainers_run:
  fixes self :: "'kw ExplanationEvalutator"
  assumes ok: "ranker_input_ok self (frames h r) score_cols"
    and ne: "index (frames h r) \<noteq> [] \<or> show_cols_for False (evaluation_measures self) (frames h r) = []"
  shows "\<exists>h'. rank_explainers self r score_cols h = (Inr (next_ref h), h')
     \<and> index (frames h' (next_ref h)) = index (frames h r)
     \<and> columns (frames h' (next_ref h)) =
         output_cols_of score_cols
           (show_cols_of (map SHORT_NAME (evaluation_measures self))
              (show_cols_for False (evaluation_measures self) (frames h r)
               @ show_cols_for True (evaluation_measures self) (frames h r)))
           (columns (frames h r))
     \<and> (\<forall>m \<in> set (evaluation_measures self). SHORT_NAME m \<in> set (columns (frames h r)) \<longrightarrow>
           (BEST_SORTING_ASCENDING m = Some False \<longrightarrow>
              getitem (frames h' (next_ref h)) (SHORT_NAME m @ ''_r'') =
                [Ints (inverted (length (index (frames h r))) (ravel (getitem (frames h r) (SHORT_NAME m))))])
         \<and> (BEST_SORTING_ASCENDING m = Some True \<longrightarrow>
              getitem (frames h' (next_ref h)) (SHORT_NAME m @ ''_r'') =
                [Ints (rankdata_dense (ravel (getitem (frames h r) (SHORT_NAME m))))]))"
proof -
  let ?df = "frames h r"
  let ?ms = "evaluation_measures self"
  let ?names = "map SHORT_NAME ?ms"
  let ?R = "\<lambda>c :: string. c @ ''_r''"
  let ?hi = "show_cols_for False ?ms ?df"
  let ?lo = "show_cols_for True ?ms ?df"
  let ?n = "length (index ?df)"
  let ?df1 = "add_ranks (inverted ?n) ?hi ?df"
  let ?df2 = "add_ranks rankdata_dense ?lo ?df1"
  from ok have d: "distinct (columns ?df)"
    and sc: "set score_cols \<subseteq> set (columns ?df)"
    and dn: "distinct ?names"
    and rc: "\<And>m. m \<in> set ?ms \<Longrightarrow> ?R (SHORT_NAME m) \<notin> set (columns ?df)"
    and rn: "\<And>m. m \<in> set ?ms \<Longrightarrow> ?R (SHORT_NAME m) \<notin> set ?names"
    and ln: "\<And>m s. m \<in> set ?ms \<Longrightarrow> s \<in> set (getitem ?df (SHORT_NAME m)) \<Longrightarrow>
               len_series s = length (index ?df)"
    by (auto simp: ranker_input_ok_def)
  have hi_names: "set ?hi \<subseteq> set ?names" and lo_names: "set ?lo \<subseteq> set ?names"
    by (auto simp: set_show_cols_for)
  have hi_cols: "set ?hi \<subseteq> set (columns ?df)" and lo_cols: "set ?lo \<subseteq> set (columns ?df)"
    by (auto simp: set_show_cols_for)
  have name_not_rank: "x \<notin> ?R ` set ?names" if "x \<in> set ?names" for x
  proof
    assume "x \<in> ?R ` set ?names"
    then obtain m where "m \<in> set ?ms" "x = ?R (SHORT_NAME m)" by auto
    with rn[of m] that show False by simp
  qed
  have rn': "?R c \<notin> set ?names" if "c \<in> set ?names" for c
  proof -
    from that obtain m where "m \<in> set ?ms" "c = SHORT_NAME m" by auto
    with rn[of m] show ?thesis by simp
  qed
  have hi_nr: "\<forall>c \<in> set ?hi. ?R c \<notin> set ?hi"
    using hi_names rn' by blast
  have lo_nr: "\<forall>c \<in> set ?lo. ?R c \<notin> set ?lo"
    using lo_names rn' by blast
  \<comment> \<open>the loop over the higher-is-better columns\<close>
  have rk_hi: "rankable ?df ?hi"
    unfolding rankable_def using d hi_cols ln by (auto simp: set_show_cols_for)
  from ne have ne': "?hi = [] \<or> index ?df \<noteq> []" by blast
  have run1: "rank_higher r ?hi h = (None, store h r ?df1)"
    by (rule rank_higher_run[OF rk_hi ne' refl])
  from add_ranks_all[OF d hi_nr, of "inverted ?n"]
  have i1: "index ?df1 = index ?df"
    and d1: "distinct (columns ?df1)"
    and c1: "set (columns ?df1) = set (columns ?df) \<union> ?R ` set ?hi"
    and g1: "\<And>x. x \<notin> ?R ` set ?hi \<Longrightarrow> getitem ?df1 x = getitem ?df x"
    and v1: "\<And>c. c \<in> set ?hi \<Longrightarrow> getitem ?df1 (?R c) = [Ints (inverted ?n (ravel (getitem ?df c)))]"
    by blast+
  \<comment> \<open>the loop over the lower-is-better columns\<close>
  have lo_same: "show_cols_for True ?ms ?df1 = ?lo"
  proof (rule show_cols_for_cong)
    fix m assume m: "m \<in> set ?ms"
    then have "SHORT_NAME m \<notin> ?R ` set ?hi"
      using name_not_rank[of "SHORT_NAME m"] hi_names by auto
    then show "(SHORT_NAME m \<in> set (columns ?df1)) = (SHORT_NAME m \<in> set (columns ?df))"
      by (simp add: c1)
  qed
  have rk_lo: "rankable ?df1 ?lo"
    unfolding rankable_def
  proof (intro conjI ballI)
    show "distinct (columns ?df1)" by (rule d1)
    show "set ?lo \<subseteq> set (columns ?df1)" using lo_cols c1 by auto
  next
    fix c s assume c: "c \<in> set ?lo" and s: "s \<in> set (getitem ?df1 c)"
    from c obtain m where m: "m \<in> set ?ms" "c = SHORT_NAME m"
      by (auto simp: set_show_cols_for)
    then have "c \<notin> ?R ` set ?hi" using name_not_rank[of c] hi_names by auto
    with s have "s \<in> set (getitem ?df c)" by (simp add: g1)
    with m show "len_series s = length (index ?df1)" by (simp add: i1 ln)
  qed
  have run2: "rank_lower r ?lo (store h r ?df1) = (None, store h r ?df2)"
    using rank_lower_run[of "store h r ?df1" r ?lo] rk_lo by simp
  from add_ranks_all[OF d1 lo_nr, of rankdata_dense]
  have i2: "index ?df2 = index ?df"
    and d2: "distinct (columns ?df2)"
    and c2: "set (columns ?df2) = set (columns ?df) \<union> ?R ` set ?hi \<union> ?R ` set ?lo"
    and g2: "\<And>x. x \<notin> ?R ` set ?lo \<Longrightarrow> getitem ?df2 x = getitem ?df1 x"
    and v2: "\<And>c. c \<in> set ?lo \<Longrightarrow> getitem ?df2 (?R c) = [Ints (rankdata_dense (ravel (getitem ?df1 c)))]"
    by (simp_all add: i1 c1)
  \<comment> \<open>the selection of the output columns\<close>
  let ?K = "filter (\<lambda>k. k \<in> set (?hi @ ?lo)) ?names"
  let ?show = "show_cols_of ?names (?hi @ ?lo)"
  let ?out_cols = "output_cols_of score_cols ?show (columns ?df)"
  have show_eq: "?show = concat (map (\<lambda>k. [k, ?R k]) ?K)"
    by (simp add: show_cols_of_def)
  have K_sub: "set ?K \<subseteq> set ?hi \<union> set ?lo" by auto
  have dK: "distinct ?K" using dn by simp
  have show_sub: "set ?show \<subseteq> set (columns ?df2)"
    unfolding show_eq using K_sub hi_cols lo_cols c2 by auto
  have out_sub: "set ?out_cols \<subseteq> set (columns ?df2)"
    using sc show_sub c2 by (auto simp: output_cols_of_def)
  let ?out = "?df2\<lparr>cols := concat (map (\<lambda>c. filter (\<lambda>(n, s). n = c) (cols ?df2)) ?out_cols)\<rparr>"
  have sel: "select_columns ?df2 ?out_cols = Inr ?out"
    by (rule select_columns_ok[OF out_sub])
  let ?h' = "snd (alloc (store h r ?df2) ?out)"
  have res: "rank_explainers self r score_cols h = (Inr (next_ref h), ?h')"
    by (simp add: rank_explainers_def Let_def run1 lo_same run2 sel case_prod_beta)
  have fr: "frames ?h' (next_ref h) = ?out"
    by (simp add: frames_alloc[of "store h r ?df2", simplified])
  have out_index: "index ?out = index ?df" by (simp add: i2)
  have out_columns: "columns ?out = ?out_cols"
    using columns_selected[OF d2 out_sub] by (simp add: columns_def)
  have out_get: "getitem ?out x = concat (replicate (count_list ?out_cols x) (getitem ?df2 x))" for x
    by (simp add: getitem_def getitem_selected)
  have once: "count_list ?out_cols (?R (SHORT_NAME m)) = 1"
    if m: "m \<in> set ?ms" and col: "SHORT_NAME m \<in> set (columns ?df)"
      and dir: "BEST_SORTING_ASCENDING m \<noteq> None" for m
  proof -
    from dir obtain b where b: "BEST_SORTING_ASCENDING m = Some b" by auto
    have "SHORT_NAME m \<in> set (show_cols_for b ?ms ?df)"
      by (rule in_show_cols_for[OF m b col])
    then have "SHORT_NAME m \<in> set ?hi \<union> set ?lo" by (cases b) simp_all
    with m have inK: "SHORT_NAME m \<in> set ?K" by auto
    have notK: "?R (SHORT_NAME m) \<notin> set ?K" using rn[OF m] by auto
    have a: "count_list ?show (?R (SHORT_NAME m)) = 1"
      unfolding show_eq by (rule count_rank_name[OF dK inK notK])
    have b: "count_list score_cols (?R (SHORT_NAME m)) = 0"
      using sc rc[OF m] by (intro count_list_absent) auto
    have c: "count_list (filter (\<lambda>c. c \<notin> set (score_cols @ ?show)) (columns ?df)) (?R (SHORT_NAME m)) = 0"
      using rc[OF m] by (intro count_list_absent) auto
    from a b c show ?thesis by (simp add: output_cols_of_def)
  qed
  have hi_val: "getitem ?out (?R (SHORT_NAME m)) =
                  [Ints (inverted ?n (ravel (getitem ?df (SHORT_NAME m))))]"
    if m: "m \<in> set ?ms" and col: "SHORT_NAME m \<in> set (columns ?df)"
      and dir: "BEST_SORTING_ASCENDING m = Some False" for m
  proof -
    have inhi: "SHORT_NAME m \<in> set ?hi" by (rule in_show_cols_for[OF m dir col])
    have "SHORT_NAME m \<notin> set ?lo"
    proof
      assume "SHORT_NAME m \<in> set ?lo"
      then obtain m' where m': "m' \<in> set ?ms" "BEST_SORTING_ASCENDING m' = Some True"
        "SHORT_NAME m' = SHORT_NAME m" by (auto simp: set_show_cols_for)
      from dn m m'(1,3) have "m' = m" by (metis distinct_map inj_onD)
      with m'(2) dir show False by simp
    qed
    then have "?R (SHORT_NAME m) \<notin> ?R ` set ?lo" by auto
    then have "getitem ?df2 (?R (SHORT_NAME m)) = getitem ?df1 (?R (SHORT_NAME m))" by (rule g2)
    with v1[OF inhi] once[OF m col] dir show ?thesis by (simp add: out_get)
  qed
  have lo_val: "getitem ?out (?R (SHORT_NAME m)) =
                  [Ints (rankdata_dense (ravel (getitem ?df (SHORT_NAME m))))]"
    if m: "m \<in> set ?ms" and col: "SHORT_NAME m \<in> set (columns ?df)"
      and dir: "BEST_SORTING_ASCENDING m = Some True" for m
  proof -
    have inlo: "SHORT_NAME m \<in> set ?lo" by (rule in_show_cols_for[OF m dir col])
    from m have "SHORT_NAME m \<notin> ?R ` set ?hi"
      using name_not_rank[of "SHORT_NAME m"] hi_names by auto
    then have "getitem ?df1 (SHORT_NAME m) = getitem ?df (SHORT_NAME m)" by (rule g1)
    with v2[OF inlo] once[OF m col] dir show ?thesis by (simp add: out_get)
  qed
  show ?thesis
    apply (rule exI[of _ ?h'])
    unfolding fr
    using res out_index out_columns hi_val lo_val by blast
qed

lemma inverted_eq:
  assumes "xs \<noteq> []" "length xs \<le> n"
  shows "inverted n xs = map (\<lambda>a. int (card (set xs)) + 1 - a) (rankdata_dense xs)"
proof -
  have "card (set xs) \<le> n" using card_length[of xs] assms(2) by linarith
  then have "min (int n) (int (card (set xs))) = int (card (set xs))" by simp
  then show ?thesis by (simp add: inverted_def Max_rankdata_dense[OF assms(1)])
qed

lemma reflect_interval: "(\<lambda>a. c + 1 - a) ` {1..c} = {1..c::int}"
proof
  show "(\<lambda>a. c + 1 - a) ` {1..c} \<subseteq> {1..c}" by auto
  show "{1..c} \<subseteq> (\<lambda>a. c + 1 - a) ` {1..c}"
  proof
    fix x assume "x \<in> {1..c}"
    then have "c + 1 - x \<in> {1..c}" "x = c + 1 - (c + 1 - x)" by auto
    then show "x \<in> (\<lambda>a. c + 1 - a) ` {1..c}" by (intro image_eqI[where x = "c + 1 - x"])
  qed
qed

lemma set_inverted:
  assumes "xs \<noteq> []" "length xs \<le> n"
  shows "set (inverted n xs) = {1..int (card (set xs))}"
proof -
  have "set (inverted n xs) = (\<lambda>a. int (card (set xs)) + 1 - a) ` set (rankdata_dense xs)"
    by (simp add: inverted_eq[OF assms])
  also have "\<dots> = (\<lambda>a. int (card (set xs)) + 1 - a) ` {1..int (card (set xs))}"
    by (simp add: set_rankdata_dense image_int_atLeastAtMost)
  finally show ?thesis by (simp add: reflect_interval)
qed

lemma score_column_of:
  assumes ok: "ranker_input_ok self df score_cols"
    and m: "m \<in> set (evaluation_measures self)"
    and col: "getitem df (SHORT_NAME m) = [s]"
  shows "SHORT_NAME m \<in> set (columns df)" and "length (to_float s) = length (index df)"
    and "ravel (getitem df (SHORT_NAME m)) = to_float s"
proof -
  show "SHORT_NAME m \<in> set (columns df)"
  proof (rule ccontr)
    assume "SHORT_NAME m \<notin> set (columns df)"
    then have "filter (\<lambda>(n, s). n = SHORT_NAME m) (cols df) = []"
      by (simp add: columns_def filter_absent)
    with col show False by (simp add: getitem_def)
  qed
  from ok m col show "length (to_float s) = length (index df)"
    by (simp add: ranker_input_ok_def length_to_float)
  from col show "ravel (getitem df (SHORT_NAME m)) = to_float s"
    by (simp add: ravel_single)
qed

lemma example_scored_ok:
  "ranker_input_ok example_registry (frames example_scored_heap 0) [''the'', ''cat'', ''the.1'']"
  by (simp add: ranker_input_ok_def example_scored_heap_def example_scored_def columns_def
      evaluation_measures_def example_registry_def example_metric_def example_plausibility_def
      getitem_def)

section \<open>The final table\<close>

lemma working_copy_distinct:
  assumes "working_copy explanations h = (df_eval, h2)"
  shows "distinct (columns (frames h2 df_eval))"
proof (cases "distinct (columns (frames h explanations))")
  case True
  with working_copy_frame[OF assms] show ?thesis by auto
next
  case False
  let ?old = "columns (frames h explanations)"
  have len: "length (maybe_dedup_names ?old) = length (cols (frames h explanations))"
    by (simp add: maybe_dedup_names_props(1) columns_def)
  from working_copy_frame[OF assms] False
  have "frames h2 df_eval = set_columns (frames h explanations) (maybe_dedup_names ?old)" by auto
  then show ?thesis
    by (simp add: columns_set_columns[OF len] maybe_dedup_names_props(2))
qed

lemma evaluated_names_subset:
  "(\<lambda>bm. SHORT_NAME (snd bm)) ` set (evaluated self tr) \<subseteq> SHORT_NAME ` set (evaluation_measures self)"
  by (cases tr) (auto simp: evaluated_def evaluation_measures_def)

lemma evaluation_loop_keys_subset:
  "set (map fst (fst (evaluation_loop self sentence ex tr target args)))
     \<subseteq> SHORT_NAME ` set (evaluation_measures self)"
proof -
  have "set (map fst (fst (evaluation_loop self sentence ex tr target args)))
          \<subseteq> (\<lambda>bm. SHORT_NAME (snd bm)) ` set (evaluated self tr)"
    unfolding evaluation_loop_keys by (simp add: set_foldl_add_key)
  with evaluated_names_subset[of self tr] show ?thesis by blast
qed

lemma getitem_append_cols:
  "getitem (df\<lparr>cols := cols df @ cs\<rparr>) x = getitem df x @ map snd (filter (\<lambda>(n, s). n = x) cs)"
  by (simp add: getitem_def)

lemma getitem_absent: "x \<notin> set (columns df) \<Longrightarrow> getitem df x = []"
  by (simp add: getitem_def columns_def filter_absent)

lemma show_cols_for_elim:
  "x \<in> set (show_cols_for asc ms df) \<Longrightarrow>
   \<exists>m' \<in> set ms. BEST_SORTING_ASCENDING m' = Some asc \<and> SHORT_NAME m' \<in> set (columns df)
      \<and> SHORT_NAME m' = x"
  by (auto simp: show_cols_for_def)

lemma in_show_cols_iff:
  assumes "distinct (map SHORT_NAME ms)" "m \<in> set ms"
  shows "(SHORT_NAME m \<in> set (show_cols_for False ms df @ show_cols_for True ms df)) =
           (BEST_SORTING_ASCENDING m \<noteq> None \<and> SHORT_NAME m \<in> set (columns df))"
proof
  assume "SHORT_NAME m \<in> set (show_cols_for False ms df @ show_cols_for True ms df)"
  then have "\<exists>b. SHORT_NAME m \<in> set (show_cols_for b ms df)" by auto
  then obtain m' b where m': "m' \<in> set ms" "BEST_SORTING_ASCENDING m' = Some b"
    "SHORT_NAME m' \<in> set (columns df)" "SHORT_NAME m' = SHORT_NAME m"
    using show_cols_for_elim by blast
  from assms m'(1,4) have "m' = m" by (metis distinct_map inj_onD)
  with m' show "BEST_SORTING_ASCENDING m \<noteq> None \<and> SHORT_NAME m \<in> set (columns df)" by simp
next
  assume a: "BEST_SORTING_ASCENDING m \<noteq> None \<and> SHORT_NAME m \<in> set (columns df)"
  then obtain b where b: "BEST_SORTING_ASCENDING m = Some b" by auto
  from a have "SHORT_NAME m \<in> set (show_cols_for b ms df)"
    by (intro in_show_cols_for[OF assms(2) b]) simp
  then show "SHORT_NAME m \<in> set (show_cols_for False ms df @ show_cols_for True ms df)"
    by (cases b) simp_all
qed

lemma show_cols_of_metrics:
  assumes "distinct (map SHORT_NAME ms)"
  shows "show_cols_of (map SHORT_NAME ms) (show_cols_for False ms df @ show_cols_for True ms df) =
     concat (map (\<lambda>m. [SHORT_NAME m, SHORT_NAME m @ ''_r''])
       (filter (\<lambda>m. BEST_SORTING_ASCENDING m \<noteq> None \<and> SHORT_NAME m \<in> set (columns df)) ms))"
proof -
  have "filter (\<lambda>m. SHORT_NAME m \<in> set (show_cols_for False ms df @ show_cols_for True ms df)) ms =
        filter (\<lambda>m. BEST_SORTING_ASCENDING m \<noteq> None \<and> SHORT_NAME m \<in> set (columns df)) ms"
    by (rule filter_cong[OF refl]) (rule in_show_cols_iff[OF assms])
  then show ?thesis
    by (simp add: show_cols_of_def filter_map o_def map_concat)
qed

lemma index_append_cols [simp]: "index (df\<lparr>cols := cs\<rparr>) = index df"
  by simp

lemma evaluated_names:
  "map (\<lambda>bm. SHORT_NAME (snd bm)) (evaluated self tr) =
     map SHORT_NAME (faithfulness_metrics self
                     @ (case tr of None \<Rightarrow> [] | Some r \<Rightarrow> plausibility_metrics self)
                     @ other_measures self)"
  by (cases tr) (simp_all add: evaluated_def o_def)

lemma evaluation_loop_keys_explicit:
  assumes "distinct (map SHORT_NAME (evaluation_measures self))"
  shows "map fst (fst (evaluation_loop self sentence ex tr target args)) =
     (if index ex = [] then []
      else map SHORT_NAME (faithfulness_metrics self
                           @ (case tr of None \<Rightarrow> [] | Some r \<Rightarrow> plausibility_metrics self)
                           @ other_measures self))"
proof -
  from assms have "distinct (map (\<lambda>bm. SHORT_NAME (snd bm)) (evaluated self tr))"
    unfolding evaluated_names by (cases tr) (auto simp: evaluation_measures_def)
  then have "foldl add_key [] (map (\<lambda>bm. SHORT_NAME (snd bm)) (evaluated self tr)) =
               map (\<lambda>bm. SHORT_NAME (snd bm)) (evaluated self tr)"
    using foldl_add_key_distinct[of "[]"] by simp
  then show ?thesis by (simp add: evaluation_loop_keys evaluated_names)
qed

lemma evaluate_explainers_ranked_run:
  fixes self :: "'kw ExplanationEvalutator"
  assumes al: "explanations < next_ref h"
    and d: "distinct (index (frames h explanations))"
    and wc: "working_copy explanations h = (df_eval, h2)"
    and cf: "names_clash_free self (columns (frames h2 df_eval))"
  shows "\<exists>out calls h' cs.
      evaluate_explainers self sentence explanations true_rationale True target args h
        = (Inr out, calls, h')
    \<and> map fst cs = map fst (fst (evaluation_loop self sentence (frames h explanations)
                                  true_rationale target args))
    \<and> columns (frames h' out) =
        output_cols_of (columns (frames h2 df_eval))
          (show_cols_of (map SHORT_NAME (evaluation_measures self))
             (show_cols_for False (evaluation_measures self)
                ((frames h2 df_eval)\<lparr>cols := cols (frames h2 df_eval) @ cs\<rparr>)
              @ show_cols_for True (evaluation_measures self)
                ((frames h2 df_eval)\<lparr>cols := cols (frames h2 df_eval) @ cs\<rparr>)))
          (columns ((frames h2 df_eval)\<lparr>cols := cols (frames h2 df_eval) @ cs\<rparr>))"
proof -
  let ?ex = "frames h explanations"
  let ?wf = "frames h2 df_eval"
  let ?tokens = "columns ?wf"
  let ?el = "evaluation_loop self sentence ?ex true_rationale target args"
  let ?keys = "map fst (fst ?el)"
  let ?ms = "evaluation_measures self"
  let ?names = "map SHORT_NAME ?ms"
  from cf have dn: "distinct ?names"
    and nt: "\<And>m. m \<in> set ?ms \<Longrightarrow> SHORT_NAME m \<notin> set ?tokens"
    and rt: "\<And>m. m \<in> set ?ms \<Longrightarrow> SHORT_NAME m @ ''_r'' \<notin> set ?tokens"
    and rn: "\<And>m. m \<in> set ?ms \<Longrightarrow> SHORT_NAME m @ ''_r'' \<notin> SHORT_NAME ` set ?ms"
    by (auto simp: names_clash_free_def)
  have keys_names: "set ?keys \<subseteq> SHORT_NAME ` set ?ms"
    by (rule evaluation_loop_keys_subset)
  have dk: "distinct ?keys" by (rule evaluation_loop_distinct_keys)
  have dt: "distinct ?tokens" by (rule working_copy_distinct[OF wc])
  have disj: "set ?tokens \<inter> set ?keys = {}"
    using keys_names nt by blast
  from working_copy_heap(3)[OF wc, of explanations] al
  have ex2: "frames h2 explanations = ?ex" by simp
  have idx: "index ?wf = index ?ex" by (rule working_copy_index[OF wc])
  from concat_scores_loop[OF idx, of self sentence true_rationale target args] d
  obtain cs where cc: "concat_scores ?wf (fst ?el) = Inr (?wf\<lparr>cols := cols ?wf @ cs\<rparr>)"
    and ck: "map fst cs = ?keys"
    and cl: "\<forall>(n, s) \<in> set cs. len_series s = length (index ?ex)"
    by blast
  let ?df = "?wf\<lparr>cols := cols ?wf @ cs\<rparr>"
  let ?h3 = "snd (alloc h2 ?df)"
  let ?r = "next_ref h2"
  have fr3: "frames ?h3 ?r = ?df" by (rule frames_alloc)
  have cdf: "columns ?df = ?tokens @ ?keys"
    by (simp add: columns_def ck)
  have in_cols: "(SHORT_NAME m \<in> set (columns ?df)) = (SHORT_NAME m \<in> set ?keys)"
    if "m \<in> set ?ms" for m
    using nt[OF that] by (simp add: cdf)
  \<comment> \<open>the frame the ranker receives is one it is specified for\<close>
  have ok: "ranker_input_ok self (frames ?h3 ?r) ?tokens"
    unfolding fr3 ranker_input_ok_def
  proof (intro conjI ballI)
    show "distinct (columns ?df)" using dt dk disj by (simp add: cdf)
    show "set ?tokens \<subseteq> set (columns ?df)" by (simp add: cdf)
    show "distinct ?names" by (rule dn)
  next
    fix m assume m: "m \<in> set ?ms"
    show "SHORT_NAME m @ ''_r'' \<notin> set (columns ?df)"
      using rt[OF m] rn[OF m] keys_names by (auto simp: cdf)
    show "SHORT_NAME m @ ''_r'' \<notin> SHORT_NAME ` set ?ms" by (rule rn[OF m])
  next
    fix m s assume m: "m \<in> set ?ms" and s: "s \<in> set (getitem ?df (SHORT_NAME m))"
    have "getitem ?wf (SHORT_NAME m) = []" by (rule getitem_absent[OF nt[OF m]])
    with s have "s \<in> snd ` set cs" by (auto simp: getitem_append_cols)
    with cl show "len_series s = length (index ?df)" by (auto simp: idx)
  qed
  have ne: "index (frames ?h3 ?r) \<noteq> [] \<or> show_cols_for False ?ms (frames ?h3 ?r) = []"
  proof (cases "index ?ex = []")
    case False
    then show ?thesis by (simp add: fr3 idx)
  next
    case True
    then have "?keys = []" by (simp add: evaluation_loop_keys)
    then have "\<And>m. m \<in> set ?ms \<Longrightarrow> SHORT_NAME m \<notin> set (columns ?df)"
      using nt by (simp add: cdf)
    then have "show_cols_for False ?ms ?df = []"
      by (auto simp: show_cols_for_def filter_empty_conv)
    then show ?thesis by (simp add: fr3)
  qed
  from rank_explainers_run[OF ok ne] obtain h'
    where res: "rank_explainers self ?r ?tokens ?h3 = (Inr (next_ref ?h3), h')"
      and oc: "columns (frames h' (next_ref ?h3)) =
                 output_cols_of ?tokens
                   (show_cols_of ?names
                      (show_cols_for False ?ms (frames ?h3 ?r) @ show_cols_for True ?ms (frames ?h3 ?r)))
                   (columns (frames ?h3 ?r))"
    by blast
  obtain t calls where el: "?el = (t, calls)" by force
  have ee: "evaluate_explainers self sentence explanations true_rationale True target args h
              = (Inr (next_ref ?h3), calls, h')"
    using cc res el
    by (simp add: evaluate_explainers_def wc ex2 case_prod_beta)
  from ee ck oc show ?thesis
    unfolding fr3 by blast
qed

lemma example_clash_free:
  "names_clash_free example_registry [''the'', ''cat'', ''the.1'']"
  by (simp add: names_clash_free_def evaluation_measures_def example_registry_def example_metric_def
      example_plausibility_def)

section \<open>Claims\<close>

text \<open>
  C1. The claim: construction with an explicit list succeeds for every concrete metric
  and raises exactly for the bare abstract marker. The code raises for every instance of
  \<open>BaseEvaluator\<close>, so also for an object of a class derived from it: a list holding one
  concrete metric of a derived class, whatever its bucket, makes the constructor raise
  \<open>ValueError\<close>.
\<close>

theorem init_rejects_derived_metric:
  "init dm tok (Some [m\<lparr>metric_class := BaseEvaluator_subclass\<rparr>]) use_correlation use_plausibility_metrics
     = Inl ValueError"
  by (simp add: init_def)

text \<open>
  C4. For a word list and a rationale of the same length, the aligner returns the flags
  of the words in order, each repeated once per token of its word; the length of the
  result is the sum of the token counts; and a word with no token adds nothing: the
  result is the one for the lists without that word and its flag.
\<close>

theorem aligner_replicates_flags:
  assumes "length ws = length rs"
  shows "get_true_rational_tokens self ws rs =
           concat (map (\<lambda>(t, r). replicate (length (converted_token self t)) r) (zip ws rs))
       \<and> length (get_true_rational_tokens self ws rs) =
           sum_list (map (\<lambda>t. length (converted_token self t)) ws)
       \<and> (\<forall>ws1 w ws2 rs1 r rs2.
             ws = ws1 @ w # ws2 \<and> rs = rs1 @ r # rs2 \<and> length ws1 = length rs1 \<and>
             converted_token self w = [] \<longrightarrow>
             get_true_rational_tokens self ws rs =
               get_true_rational_tokens self (ws1 @ ws2) (rs1 @ rs2))"
proof (intro conjI allI impI)
  show "get_true_rational_tokens self ws rs =
          concat (map (\<lambda>(t, r). replicate (length (converted_token self t)) r) (zip ws rs))"
    by (rule get_true_rational_tokens_concat)
  show "length (get_true_rational_tokens self ws rs) =
          sum_list (map (\<lambda>t. length (converted_token self t)) ws)"
    using assms by (simp add: get_true_rational_tokens_concat length_concat_replicate)
next
  fix ws1 w ws2 rs1 r rs2
  assume h: "ws = ws1 @ w # ws2 \<and> rs = rs1 @ r # rs2 \<and> length ws1 = length rs1 \<and>
             converted_token self w = []"
  then show "get_true_rational_tokens self ws rs =
               get_true_rational_tokens self (ws1 @ ws2) (rs1 @ rs2)"
    by (simp add: get_true_rational_tokens_concat)
qed

theorem aligner_replicates_flags_witness:
  "length [''The'', ''running'', ''-'', ''cat''] = length [0, 1, 1, 0 :: int]
   \<and> get_true_rational_tokens example_evaluator [''The'', ''running'', ''-'', ''cat''] [0, 1, 1, 0]
       = [0, 1, 1, 0]
   \<and> length (get_true_rational_tokens example_evaluator [''The'', ''running'', ''-'', ''cat''] [0, 1, 1, 0])
       = 4
   \<and> get_true_rational_tokens example_evaluator [''The'', ''running'', ''-'', ''cat''] [0, 1, 1, 0]
       = get_true_rational_tokens example_evaluator [''The'', ''running'', ''cat''] [0, 1, 0]"
proof -
  have len: "length [''The'', ''running'', ''-'', ''cat''] = length [0, 1, 1, 0 :: int]"
    by simp
  have tok: "converted_token example_evaluator ''The'' = [7]"
    "converted_token example_evaluator ''running'' = [2770, 1394]"
    "converted_token example_evaluator ''-'' = []"
    "converted_token example_evaluator ''cat'' = [7]"
    by (simp_all add: converted_token_def example_evaluator_def new_evaluator_def example_tokenizer_def)
  from aligner_replicates_flags[OF len, of example_evaluator]
  have eq: "get_true_rational_tokens example_evaluator [''The'', ''running'', ''-'', ''cat''] [0, 1, 1, 0]
              = [0, 1, 1, 0]"
    and ln: "length (get_true_rational_tokens example_evaluator [''The'', ''running'', ''-'', ''cat''] [0, 1, 1, 0])
              = 4"
    and drop: "\<forall>ws1 w ws2 rs1 r rs2.
             [''The'', ''running'', ''-'', ''cat''] = ws1 @ w # ws2 \<and> [0, 1, 1, 0] = rs1 @ r # rs2 \<and>
             length ws1 = length rs1 \<and> converted_token example_evaluator w = [] \<longrightarrow>
             get_true_rational_tokens example_evaluator [''The'', ''running'', ''-'', ''cat''] [0, 1, 1, 0] =
               get_true_rational_tokens example_evaluator (ws1 @ ws2) (rs1 @ rs2)"
    by (simp_all add: tok)
  from drop[rule_format, of "[''The'', ''running'']" "''-''" "[''cat'']" "[0, 1]" 1 "[0]"]
  have "get_true_rational_tokens example_evaluator [''The'', ''running'', ''-'', ''cat''] [0, 1, 1, 0]
          = get_true_rational_tokens example_evaluator [''The'', ''running'', ''cat''] [0, 1, 0]"
    by (simp add: tok)
  with len eq ln show ?thesis by blast
qed

text \<open>
  C5. When a column name of the explanation matrix repeats, the working copy that
  \<open>evaluate_explainers\<close> makes before it merges the scores has pairwise distinct
  column names, as many as the matrix and in its order: each new name is the old name
  with a suffix (possibly empty), and an occurrence of a name beyond its first gets a
  suffix that starts with a dot. Row labels and cell values of the copy are those of the
  matrix. The merge then works on these names: with unique row labels the call returns
  (here without ranking) a table whose leading columns are the renamed ones.
\<close>

theorem duplicate_columns_disambiguated:
  assumes dup: "\<not> distinct (columns (frames h explanations))"
    and wc: "working_copy explanations h = (df_eval, h2)"
  shows "distinct (columns (frames h2 df_eval))
       \<and> length (columns (frames h2 df_eval)) = length (columns (frames h explanations))
       \<and> (\<forall>i < length (columns (frames h explanations)).
            (\<exists>s. columns (frames h2 df_eval) ! i = columns (frames h explanations) ! i @ s)
          \<and> (columns (frames h explanations) ! i \<in> set (take i (columns (frames h explanations))) \<longrightarrow>
              (\<exists>s. columns (frames h2 df_eval) ! i = columns (frames h explanations) ! i @ ''.'' @ s)))
       \<and> map snd (cols (frames h2 df_eval)) = map snd (cols (frames h explanations))
       \<and> index (frames h2 df_eval) = index (frames h explanations)
       \<and> (explanations < next_ref h \<and> distinct (index (frames h explanations)) \<longrightarrow>
            (\<exists>out calls h3.
               evaluate_explainers self sentence explanations true_rationale False target args h
                 = (Inr out, calls, h3)
             \<and> take (length (columns (frames h explanations))) (columns (frames h3 out))
                 = columns (frames h2 df_eval)))"
proof -
  let ?old = "columns (frames h explanations)"
  let ?new = "maybe_dedup_names ?old"
  have len: "length ?new = length (cols (frames h explanations))"
    by (simp add: maybe_dedup_names_props(1) columns_def)
  from working_copy_frame[OF wc] dup
  have fr: "frames h2 df_eval = set_columns (frames h explanations) ?new" by auto
  have cs: "columns (frames h2 df_eval) = ?new"
    unfolding fr by (rule columns_set_columns[OF len])
  have vals: "map snd (cols (frames h2 df_eval)) = map snd (cols (frames h explanations))"
    unfolding fr using len by (simp add: set_columns_def)
  have idx: "index (frames h2 df_eval) = index (frames h explanations)"
    unfolding fr by (simp add: set_columns_def)
  have suf: "\<forall>i < length ?old.
            (\<exists>s. ?new ! i = ?old ! i @ s)
          \<and> (?old ! i \<in> set (take i ?old) \<longrightarrow> (\<exists>s. ?new ! i = ?old ! i @ ''.'' @ s))"
    using maybe_dedup_names_props(3,4)[of _ ?old] by blast
  have merged: "\<exists>out calls h3.
               evaluate_explainers self sentence explanations true_rationale False target args h
                 = (Inr out, calls, h3)
             \<and> take (length ?old) (columns (frames h3 out)) = columns (frames h2 df_eval)"
    if al: "explanations < next_ref h" and d: "distinct (index (frames h explanations))"
  proof -
    from evaluate_explainers_no_rank[OF al d wc, of self sentence true_rationale target args]
    obtain cs' calls h3 where
      ee: "evaluate_explainers self sentence explanations true_rationale False target args h
             = (Inr (next_ref h2), calls, h3)"
      and fr3: "frames h3 (next_ref h2) = (frames h2 df_eval)\<lparr>cols := cols (frames h2 df_eval) @ cs'\<rparr>"
      by blast
    have "columns (frames h3 (next_ref h2)) = columns (frames h2 df_eval) @ map fst cs'"
      by (simp add: fr3 columns_def)
    moreover have "length (columns (frames h2 df_eval)) = length ?old"
      by (simp add: cs maybe_dedup_names_props(1))
    ultimately have "take (length ?old) (columns (frames h3 (next_ref h2))) = columns (frames h2 df_eval)"
      by simp
    with ee show ?thesis by blast
  qed
  have "distinct ?new" "length ?new = length ?old"
    by (rule maybe_dedup_names_props)+
  with suf vals idx merged show ?thesis
    unfolding cs by blast
qed

theorem duplicate_columns_disambiguated_witness:
  "\<not> distinct (columns (frames example_heap 0))
   \<and> columns (frames (snd (working_copy 0 example_heap)) (fst (working_copy 0 example_heap)))
       = [''the'', ''cat'', ''the.1'']
   \<and> distinct (columns (frames (snd (working_copy 0 example_heap)) (fst (working_copy 0 example_heap))))
   \<and> (\<exists>out calls h3.
         evaluate_explainers example_registry ''the cat the'' 0 None False 1 () example_heap
           = (Inr out, calls, h3)
       \<and> take 3 (columns (frames h3 out)) = [''the'', ''cat'', ''the.1''])"
proof -
  have dup: "\<not> distinct (columns (frames example_heap 0))"
    by (simp add: example_heap_def example_matrix_def columns_def)
  have wc: "working_copy 0 example_heap = (fst (working_copy 0 example_heap), snd (working_copy 0 example_heap))"
    by simp
  have al: "(0::nat) < next_ref example_heap" by (simp add: example_heap_def)
  have d: "distinct (index (frames example_heap 0))"
    by (simp add: example_heap_def example_matrix_def)
  have n: "length (columns (frames example_heap 0)) = 3"
    by (simp add: example_heap_def example_matrix_def columns_def)
  have tk: "columns (frames (snd (working_copy 0 example_heap)) (fst (working_copy 0 example_heap)))
       = [''the'', ''cat'', ''the.1'']"
    by (simp add: example_working_copy columns_def)
  note t = duplicate_columns_disambiguated[OF dup wc, where self = example_registry
      and sentence = "''the cat the''" and true_rationale = None and target = 1 and args = "()"]
  from t have 1: "distinct (columns (frames (snd (working_copy 0 example_heap)) (fst (working_copy 0 example_heap))))"
    by blast
  from t al d have "\<exists>out calls h3.
         evaluate_explainers example_registry ''the cat the'' 0 None False 1 () example_heap
           = (Inr out, calls, h3)
       \<and> take (length (columns (frames example_heap 0))) (columns (frames h3 out))
           = columns (frames (snd (working_copy 0 example_heap)) (fst (working_copy 0 example_heap)))"
    by blast
  then have 2: "\<exists>out calls h3.
         evaluate_explainers example_registry ''the cat the'' 0 None False 1 () example_heap
           = (Inr out, calls, h3)
       \<and> take 3 (columns (frames h3 out)) = [''the'', ''cat'', ''the.1'']"
    unfolding n tk .
  from dup tk 1 2 show ?thesis by blast
qed


text \<open>
  C7. A call of \<open>evaluate_explainers\<close> without a rationale, on an allocated matrix:
  no call in the log is to a plausibility metric; the name of a plausibility metric that
  no faithfulness or other metric shares is no key of the score table the loop builds;
  every faithfulness metric and every other metric is called once per row label, with
  the row's scores and the target, and the score table holds an entry for it under that
  label; for a faithfulness or other metric \<open>m\<close> whose name no different such metric
  shares, that entry is the value \<open>m\<close> returns for the sentence, the row's scores, no
  rationale and the target, and with unique row labels (at least one) the table the
  call without ranking returns has the column of these values under the metric's name;
  and the skip is no error: with unique row labels the call without ranking
  returns a table, and so does the call with ranking when the names are as
  \<open>names_clash_free\<close> describes.
\<close>

theorem plausibility_skipped_without_rationale:
  assumes al: "explanations < next_ref h"
  shows "(\<forall>c \<in> set (fst (snd (evaluate_explainers self sentence explanations None rank_explainer
                               target args h))).
            call_bucket c \<noteq> Plausibility)
       \<and> (\<forall>p \<in> set (plausibility_metrics self).
            SHORT_NAME p \<notin> SHORT_NAME ` set (faithfulness_metrics self @ other_measures self) \<longrightarrow>
            SHORT_NAME p \<notin> fst ` set (fst (evaluation_loop self sentence (frames h explanations) None
                                              target args)))
       \<and> (\<forall>e \<in> set (index (frames h explanations)).
            (\<forall>m \<in> set (faithfulness_metrics self).
               Call Faithfulness (SHORT_NAME m) e sentence (loc_values (frames h explanations) e) None
                 (Some target) args
               \<in> set (fst (snd (evaluate_explainers self sentence explanations None rank_explainer
                                  target args h))))
          \<and> (\<forall>m \<in> set (other_measures self).
               Call Other (SHORT_NAME m) e sentence (loc_values (frames h explanations) e) None
                 (Some target) args
               \<in> set (fst (snd (evaluate_explainers self sentence explanations None rank_explainer
                                  target args h))))
          \<and> (\<forall>m \<in> set (faithfulness_metrics self @ other_measures self).
               \<exists>inner. map_of (fst (evaluation_loop self sentence (frames h explanations) None
                                       target args)) (SHORT_NAME m) = Some inner
                     \<and> e \<in> fst ` set inner))
       \<and> (\<forall>m \<in> set (faithfulness_metrics self @ other_measures self).
            (\<forall>m' \<in> set (faithfulness_metrics self @ other_measures self).
               SHORT_NAME m' = SHORT_NAME m \<longrightarrow> m' = m) \<longrightarrow>
            (\<forall>e \<in> set (index (frames h explanations)).
               \<exists>inner. map_of (fst (evaluation_loop self sentence (frames h explanations) None
                                       target args)) (SHORT_NAME m) = Some inner
                     \<and> map_of inner e
                         = Some (evaluate_explanation m sentence (loc_values (frames h explanations) e)
                                   None (Some target) args))
          \<and> (distinct (index (frames h explanations)) \<and> index (frames h explanations) \<noteq> [] \<longrightarrow>
               (\<exists>out calls h'.
                  evaluate_explainers self sentence explanations None False target args h
                    = (Inr out, calls, h')
                \<and> (SHORT_NAME m,
                    Floats (map (\<lambda>e. evaluate_explanation m sentence (loc_values (frames h explanations) e)
                                       None (Some target) args)
                              (index (frames h explanations))))
                   \<in> set (cols (frames h' out)))))
       \<and> (distinct (index (frames h explanations)) \<longrightarrow>
            (\<exists>out. fst (evaluate_explainers self sentence explanations None False target args h)
                     = Inr out))
       \<and> (distinct (index (frames h explanations))
          \<and> names_clash_free self
               (columns (frames (snd (working_copy explanations h)) (fst (working_copy explanations h))))
          \<longrightarrow>
            (\<exists>out. fst (evaluate_explainers self sentence explanations None True target args h)
                     = Inr out))"
proof -
  let ?ex = "frames h explanations"
  let ?calls = "fst (snd (evaluate_explainers self sentence explanations None rank_explainer target args h))"
  let ?t = "fst (evaluation_loop self sentence ?ex None target args)"
  have ev: "evaluated self None =
              map (Pair Faithfulness) (faithfulness_metrics self) @ map (Pair Other) (other_measures self)"
    by (simp add: evaluated_def)
  have names: "(\<lambda>bm. SHORT_NAME (snd bm)) ` set (evaluated self None) =
                 SHORT_NAME ` set (faithfulness_metrics self @ other_measures self)"
    by (simp add: ev image_Un image_image)
  have calls: "?calls = concat (map (\<lambda>e. map (call_of sentence ?ex None target args e)
                                      (evaluated self None)) (index ?ex))"
    by (simp add: evaluate_explainers_calls[OF al] evaluation_loop_calls)
  have c1: "\<forall>c \<in> set ?calls. call_bucket c \<noteq> Plausibility"
    unfolding calls by (auto simp: call_of_def ev)
  have keys: "fst ` set ?t \<subseteq> SHORT_NAME ` set (faithfulness_metrics self @ other_measures self)"
  proof -
    have "fst ` set ?t = set (map fst ?t)" by simp
    also have "\<dots> \<subseteq> (\<lambda>bm. SHORT_NAME (snd bm)) ` set (evaluated self None)"
      unfolding evaluation_loop_keys by (simp add: set_foldl_add_key)
    finally show ?thesis unfolding names .
  qed
  have c2: "\<forall>p \<in> set (plausibility_metrics self).
            SHORT_NAME p \<notin> SHORT_NAME ` set (faithfulness_metrics self @ other_measures self) \<longrightarrow>
            SHORT_NAME p \<notin> fst ` set ?t"
    using keys by blast
  have c3: "Call Faithfulness (SHORT_NAME m) e sentence (loc_values ?ex e) None (Some target) args \<in> set ?calls"
    if "e \<in> set (index ?ex)" "m \<in> set (faithfulness_metrics self)" for e m
  proof -
    from that(2) have "(Faithfulness, m) \<in> set (evaluated self None)" by (simp add: ev)
    with that(1) show ?thesis unfolding calls by (force simp: call_of_def)
  qed
  have c4: "Call Other (SHORT_NAME m) e sentence (loc_values ?ex e) None (Some target) args \<in> set ?calls"
    if "e \<in> set (index ?ex)" "m \<in> set (other_measures self)" for e m
  proof -
    from that(2) have "(Other, m) \<in> set (evaluated self None)" by (simp add: ev)
    with that(1) show ?thesis unfolding calls by (force simp: call_of_def)
  qed
  have c5: "\<exists>inner. map_of ?t (SHORT_NAME m) = Some inner \<and> e \<in> fst ` set inner"
    if "e \<in> set (index ?ex)" "m \<in> set (faithfulness_metrics self @ other_measures self)" for e m
  proof -
    from that(2) have "SHORT_NAME m \<in> (\<lambda>bm. SHORT_NAME (snd bm)) ` set (evaluated self None)"
      unfolding names by blast
    then have "scored_for ?t (SHORT_NAME m) = set (index ?ex)"
      by (simp add: evaluation_loop_scored_for)
    with that(1) show ?thesis
      by (auto simp: scored_for_def split: option.splits)
  qed
  have c6: "\<exists>out. fst (evaluate_explainers self sentence explanations None False target args h) = Inr out"
    if d: "distinct (index ?ex)"
  proof -
    obtain df_eval h2 where wc: "working_copy explanations h = (df_eval, h2)" by force
    from evaluate_explainers_no_rank[OF al d wc, of self sentence None target args]
    show ?thesis by auto
  qed
  have c7: "\<exists>out. fst (evaluate_explainers self sentence explanations None True target args h) = Inr out"
    if d: "distinct (index ?ex)"
      and cf: "names_clash_free self
                 (columns (frames (snd (working_copy explanations h)) (fst (working_copy explanations h))))"
  proof -
    have wc: "working_copy explanations h = (fst (working_copy explanations h), snd (working_copy explanations h))"
      by simp
    from evaluate_explainers_ranked_run[OF al d wc cf, of sentence None target args]
    show ?thesis by auto
  qed
  have c8: "(\<forall>e \<in> set (index ?ex).
               \<exists>inner. map_of ?t (SHORT_NAME m) = Some inner
                     \<and> map_of inner e
                         = Some (evaluate_explanation m sentence (loc_values ?ex e) None (Some target) args))
          \<and> (distinct (index ?ex) \<and> index ?ex \<noteq> [] \<longrightarrow>
               (\<exists>out calls h'.
                  evaluate_explainers self sentence explanations None False target args h
                    = (Inr out, calls, h')
                \<and> (SHORT_NAME m,
                    Floats (map (\<lambda>e. evaluate_explanation m sentence (loc_values ?ex e) None (Some target) args)
                              (index ?ex)))
                   \<in> set (cols (frames h' out))))"
    if m: "m \<in> set (faithfulness_metrics self @ other_measures self)"
      and u: "\<forall>m' \<in> set (faithfulness_metrics self @ other_measures self).
                SHORT_NAME m' = SHORT_NAME m \<longrightarrow> m' = m" for m
  proof -
    let ?ms = "named (SHORT_NAME m) (evaluated self None)"
    let ?f = "\<lambda>e. evaluate_explanation m sentence (loc_values ?ex e) None (Some target) args"
    from m have "\<exists>b. (b, m) \<in> set (evaluated self None)" by (auto simp: ev)
    then have ne: "?ms \<noteq> []" by (force simp: named_def filter_empty_conv)
    then have "last ?ms \<in> set ?ms" by (rule last_in_set)
    then have l: "last ?ms \<in> set (evaluated self None)" "SHORT_NAME (snd (last ?ms)) = SHORT_NAME m"
      by (simp_all add: named_def)
    from l(1) have b: "fst (last ?ms) \<noteq> Plausibility"
      and "snd (last ?ms) \<in> set (faithfulness_metrics self @ other_measures self)"
      by (auto simp: ev)
    with u l(2) have "snd (last ?ms) = m" by blast
    with b have sc: "score_of sentence ?ex None target args e (last ?ms) = ?f e" for e
      by (simp add: score_of_def)
    have cells: "\<forall>e \<in> set (index ?ex). cell ?t (SHORT_NAME m) e = Some (?f e)"
      using ne by (simp add: evaluation_loop_cell sc)
    have 1: "\<forall>e \<in> set (index ?ex).
               \<exists>inner. map_of ?t (SHORT_NAME m) = Some inner \<and> map_of inner e = Some (?f e)"
      using cells by (auto simp: cell_def split: option.splits)
    have 2: "\<exists>out calls h'.
                  evaluate_explainers self sentence explanations None False target args h
                    = (Inr out, calls, h')
                \<and> (SHORT_NAME m, Floats (map ?f (index ?ex))) \<in> set (cols (frames h' out))"
      if "distinct (index ?ex)" "index ?ex \<noteq> []"
      by (rule evaluate_explainers_no_rank_column[OF al that cells])
    from 1 2 show ?thesis by blast
  qed
  from c1 c2 c3 c4 c5 have a: "(\<forall>c \<in> set ?calls. call_bucket c \<noteq> Plausibility)
       \<and> (\<forall>p \<in> set (plausibility_metrics self).
            SHORT_NAME p \<notin> SHORT_NAME ` set (faithfulness_metrics self @ other_measures self) \<longrightarrow>
            SHORT_NAME p \<notin> fst ` set ?t)
       \<and> (\<forall>e \<in> set (index ?ex).
            (\<forall>m \<in> set (faithfulness_metrics self).
               Call Faithfulness (SHORT_NAME m) e sentence (loc_values ?ex e) None (Some target) args
               \<in> set ?calls)
          \<and> (\<forall>m \<in> set (other_measures self).
               Call Other (SHORT_NAME m) e sentence (loc_values ?ex e) None (Some target) args
               \<in> set ?calls)
          \<and> (\<forall>m \<in> set (faithfulness_metrics self @ other_measures self).
               \<exists>inner. map_of ?t (SHORT_NAME m) = Some inner \<and> e \<in> fst ` set inner))"
    by blast
  from c6 c7 have b: "(distinct (index ?ex) \<longrightarrow>
            (\<exists>out. fst (evaluate_explainers self sentence explanations None False target args h)
                     = Inr out))
       \<and> (distinct (index ?ex)
          \<and> names_clash_free self
               (columns (frames (snd (working_copy explanations h)) (fst (working_copy explanations h))))
          \<longrightarrow>
            (\<exists>out. fst (evaluate_explainers self sentence explanations None True target args h)
                     = Inr out))"
    by blast
  from c8 have c: "\<forall>m \<in> set (faithfulness_metrics self @ other_measures self).
            (\<forall>m' \<in> set (faithfulness_metrics self @ other_measures self).
               SHORT_NAME m' = SHORT_NAME m \<longrightarrow> m' = m) \<longrightarrow>
            (\<forall>e \<in> set (index ?ex).
               \<exists>inner. map_of ?t (SHORT_NAME m) = Some inner
                     \<and> map_of inner e
                         = Some (evaluate_explanation m sentence (loc_values ?ex e) None (Some target) args))
          \<and> (distinct (index ?ex) \<and> index ?ex \<noteq> [] \<longrightarrow>
               (\<exists>out calls h'.
                  evaluate_explainers self sentence explanations None False target args h
                    = (Inr out, calls, h')
                \<and> (SHORT_NAME m,
                    Floats (map (\<lambda>e. evaluate_explanation m sentence (loc_values ?ex e) None (Some target) args)
                              (index ?ex)))
                   \<in> set (cols (frames h' out))))"
    by (intro ballI impI) (rule c8)
  from a c b show ?thesis by (intro conjI) (elim conjE, assumption)+
qed

theorem plausibility_skipped_without_rationale_witness:
  "(0::nat) < next_ref example_heap
   \<and> Call Faithfulness ''aopc_compr'' ''lime'' ''the cat the'' (Array1 [1 / 10, 1 / 2, 0]) None (Some 1) ()
       \<in> set (fst (snd (evaluate_explainers example_registry ''the cat the'' 0 None True 1 () example_heap)))
   \<and> ''auprc_plau'' \<notin> fst ` set (fst (evaluation_loop example_registry ''the cat the''
                                          (frames example_heap 0) None 1 ()))
   \<and> (\<exists>out. fst (evaluate_explainers example_registry ''the cat the'' 0 None False 1 () example_heap)
              = Inr out)
   \<and> (\<exists>out. fst (evaluate_explainers example_registry ''the cat the'' 0 None True 1 () example_heap)
              = Inr out)
   \<and> (\<exists>out calls h'.
         evaluate_explainers example_registry ''the cat the'' 0 None False 1 () example_heap
           = (Inr out, calls, h')
       \<and> (''aopc_compr'', Floats [3 / 5, 1 / 2]) \<in> set (cols (frames h' out)))"
proof -
  have a: "(0::nat) < next_ref example_heap" by (simp add: example_heap_def)
  have e: "''lime'' \<in> set (index (frames example_heap 0))"
    by (simp add: example_heap_def example_matrix_def)
  have d: "distinct (index (frames example_heap 0))"
    by (simp add: example_heap_def example_matrix_def)
  have m: "example_metric ''aopc_compr'' ''faithfulness'' (Some False) sum_list
             \<in> set (faithfulness_metrics example_registry)"
    by (simp add: example_registry_def)
  have p: "example_plausibility
             \<in> set (plausibility_metrics example_registry)"
    by (simp add: example_registry_def)
  have pn: "SHORT_NAME (example_plausibility)
              \<notin> SHORT_NAME ` set (faithfulness_metrics example_registry @ other_measures example_registry)"
    by (simp add: example_registry_def example_metric_def example_plausibility_def)
  have l: "loc_values (frames example_heap 0) ''lime'' = Array1 [1 / 10, 1 / 2, 0]"
    by (simp add: loc_values_def row_at_def example_heap_def example_matrix_def upt_rec)
  note t = plausibility_skipped_without_rationale[OF a, where self = example_registry
      and sentence = "''the cat the''" and target = 1 and args = "()"]
  from t[where rank_explainer = True] e m
  have "Call Faithfulness (SHORT_NAME (example_metric ''aopc_compr'' ''faithfulness'' (Some False) sum_list))
          ''lime'' ''the cat the'' (loc_values (frames example_heap 0) ''lime'') None (Some 1) ()
       \<in> set (fst (snd (evaluate_explainers example_registry ''the cat the'' 0 None True 1 () example_heap)))"
    by blast
  then have 1: "Call Faithfulness ''aopc_compr'' ''lime'' ''the cat the'' (Array1 [1 / 10, 1 / 2, 0]) None (Some 1) ()
       \<in> set (fst (snd (evaluate_explainers example_registry ''the cat the'' 0 None True 1 () example_heap)))"
    by (simp add: l example_metric_def)
  from t[where rank_explainer = True] p pn
  have "SHORT_NAME (example_plausibility)
          \<notin> fst ` set (fst (evaluation_loop example_registry ''the cat the''
                                          (frames example_heap 0) None 1 ()))"
    by blast
  then have 2: "''auprc_plau'' \<notin> fst ` set (fst (evaluation_loop example_registry ''the cat the''
                                          (frames example_heap 0) None 1 ()))"
    by (simp add: example_plausibility_def)
  from t[where rank_explainer = True] d
  have 3: "\<exists>out. fst (evaluate_explainers example_registry ''the cat the'' 0 None False 1 () example_heap)
              = Inr out"
    by blast
  have tk: "columns (frames (snd (working_copy 0 example_heap)) (fst (working_copy 0 example_heap)))
              = [''the'', ''cat'', ''the.1'']"
    by (simp add: example_working_copy columns_def)
  have cf: "names_clash_free example_registry
        (columns (frames (snd (working_copy 0 example_heap)) (fst (working_copy 0 example_heap))))"
    unfolding tk by (rule example_clash_free)
  from t[where rank_explainer = True] d cf
  have 4: "\<exists>out. fst (evaluate_explainers example_registry ''the cat the'' 0 None True 1 () example_heap)
              = Inr out"
    by blast
  have mm: "example_metric ''aopc_compr'' ''faithfulness'' (Some False) sum_list
             \<in> set (faithfulness_metrics example_registry @ other_measures example_registry)"
    by (simp add: example_registry_def)
  have u: "\<forall>m' \<in> set (faithfulness_metrics example_registry @ other_measures example_registry).
             SHORT_NAME m' = SHORT_NAME (example_metric ''aopc_compr'' ''faithfulness'' (Some False) sum_list)
             \<longrightarrow> m' = example_metric ''aopc_compr'' ''faithfulness'' (Some False) sum_list"
    by (simp add: example_registry_def example_metric_def)
  have ne: "index (frames example_heap 0) \<noteq> []"
    by (simp add: example_heap_def example_matrix_def)
  have ix: "index (frames example_heap 0) = [''lime'', ''shap'']"
    by (simp add: example_heap_def example_matrix_def)
  have l2: "loc_values (frames example_heap 0) ''shap'' = Array1 [3 / 10, - 1 / 5, 2 / 5]"
    by (simp add: loc_values_def row_at_def example_heap_def example_matrix_def upt_rec)
  from t[where rank_explainer = True] mm u d ne
  have "\<exists>out calls h'.
         evaluate_explainers example_registry ''the cat the'' 0 None False 1 () example_heap
           = (Inr out, calls, h')
       \<and> (SHORT_NAME (example_metric ''aopc_compr'' ''faithfulness'' (Some False) sum_list),
           Floats (map (\<lambda>e. evaluate_explanation
                                (example_metric ''aopc_compr'' ''faithfulness'' (Some False) sum_list)
                                ''the cat the'' (loc_values (frames example_heap 0) e) None (Some 1) ())
                     (index (frames example_heap 0))))
          \<in> set (cols (frames h' out))"
    by blast
  then have 5: "\<exists>out calls h'.
         evaluate_explainers example_registry ''the cat the'' 0 None False 1 () example_heap
           = (Inr out, calls, h')
       \<and> (''aopc_compr'', Floats [3 / 5, 1 / 2]) \<in> set (cols (frames h' out))"
    by (simp add: ix l l2 example_metric_def)
  from a 1 2 3 4 5 show ?thesis by blast
qed

text \<open>
  C8. The frame behind the caller's reference is the same frame after the call as
  before it (same row labels, column names and cells), whatever the arguments and
  whether the call returns a table or raises: the function writes only to frames it
  allocated itself. The metric calls are pure functions in this model.
\<close>

theorem caller_matrix_unchanged:
  assumes "explanations < next_ref h"
  shows "frames (snd (snd (evaluate_explainers self sentence explanations true_rationale rank_explainer
                             target args h))) explanations
         = frames h explanations"
proof -
  obtain df_eval h2 where wc: "working_copy explanations h = (df_eval, h2)" by force
  note w = working_copy_heap[OF wc]
  from assms w have r2: "frames h2 explanations = frames h explanations" by simp
  obtain t calls where el: "evaluation_loop self sentence (frames h2 explanations) true_rationale target args = (t, calls)"
    by force
  show ?thesis
  proof (cases "concat_scores (frames h2 df_eval) t")
    case (Inl e)
    with wc el r2 show ?thesis by (simp add: evaluate_explainers_def)
  next
    case (Inr df)
    obtain res h4 where re: "rank_explainers self (next_ref h2) (columns (frames h2 df_eval))
        (h2\<lparr>next_ref := Suc (next_ref h2), frames := (frames h2)(next_ref h2 := df)\<rparr>) = (res, h4)"
      by force
    from rank_explainers_frame[OF re] assms w(2)
    have "frames h4 explanations = frames h2 explanations" by simp
    with Inr wc el r2 re assms w(2) show ?thesis
      by (simp add: evaluate_explainers_def alloc_def)
  qed
qed

theorem caller_matrix_unchanged_witness:
  "(0::nat) < next_ref example_heap
   \<and> frames (snd (snd (evaluate_explainers example_registry ''the cat the'' 0 None True 1 ()
                         example_heap))) 0
       = example_matrix"
proof -
  have a: "(0::nat) < next_ref example_heap" by (simp add: example_heap_def)
  from caller_matrix_unchanged[OF a, where self = example_registry and sentence = "''the cat the''"
      and true_rationale = None and rank_explainer = True and target = 1 and args = "()"]
  show ?thesis using a by (simp add: example_heap_def)
qed

text \<open>
  C9. A call of \<open>evaluate_explainers\<close> with a rationale \<open>r\<close>: every call to a
  plausibility metric in the log has the rationale argument \<open>r\<close>, the value the caller
  passed; every plausibility metric is called so for every row label; the whole
  result is the same for every tokenizer the evaluator could hold, so nothing the
  aligner \<open>get_true_rational_tokens\<close> computes from the tokenizer enters it; and for a
  plausibility metric \<open>p\<close> whose name no other measure and no different plausibility
  metric shares, the score recorded for a row is the value \<open>p\<close> returns for the
  sentence, the row's scores and the rationale \<open>r\<close> itself (with no target), and with
  unique row labels (at least one) the table the call without ranking returns has the
  column of these values under the metric's name.
\<close>

theorem plausibility_receives_caller_rationale:
  assumes al: "explanations < next_ref h"
  shows "(\<forall>c \<in> set (fst (snd (evaluate_explainers self sentence explanations (Some r) rank_explainer
                               target args h))).
            call_bucket c = Plausibility \<longrightarrow> call_rationale c = Some r)
       \<and> (\<forall>e \<in> set (index (frames h explanations)). \<forall>m \<in> set (plausibility_metrics self).
            Call Plausibility (SHORT_NAME m) e sentence (loc_values (frames h explanations) e) (Some r)
              None args
            \<in> set (fst (snd (evaluate_explainers self sentence explanations (Some r) rank_explainer
                               target args h))))
       \<and> (\<forall>t. evaluate_explainers (self\<lparr>tokenizer := t\<rparr>) sentence explanations (Some r) rank_explainer
                  target args h
              = evaluate_explainers self sentence explanations (Some r) rank_explainer target args h)
       \<and> (\<forall>p \<in> set (plausibility_metrics self).
            SHORT_NAME p \<notin> SHORT_NAME ` set (other_measures self)
            \<and> (\<forall>p' \<in> set (plausibility_metrics self). SHORT_NAME p' = SHORT_NAME p \<longrightarrow> p' = p) \<longrightarrow>
            (\<forall>e \<in> set (index (frames h explanations)).
               \<exists>inner. map_of (fst (evaluation_loop self sentence (frames h explanations) (Some r)
                                       target args)) (SHORT_NAME p) = Some inner
                     \<and> map_of inner e
                         = Some (evaluate_explanation p sentence (loc_values (frames h explanations) e)
                                   (Some r) None args))
          \<and> (distinct (index (frames h explanations)) \<and> index (frames h explanations) \<noteq> [] \<longrightarrow>
               (\<exists>out calls h'.
                  evaluate_explainers self sentence explanations (Some r) False target args h
                    = (Inr out, calls, h')
                \<and> (SHORT_NAME p,
                    Floats (map (\<lambda>e. evaluate_explanation p sentence (loc_values (frames h explanations) e)
                                       (Some r) None args)
                              (index (frames h explanations))))
                   \<in> set (cols (frames h' out)))))"
proof -
  let ?ex = "frames h explanations"
  let ?calls = "fst (snd (evaluate_explainers self sentence explanations (Some r) rank_explainer target args h))"
  let ?t = "fst (evaluation_loop self sentence ?ex (Some r) target args)"
  have ev: "evaluated self (Some r) =
              map (Pair Faithfulness) (faithfulness_metrics self)
              @ map (Pair Plausibility) (plausibility_metrics self)
              @ map (Pair Other) (other_measures self)"
    by (simp add: evaluated_def)
  have calls: "?calls = concat (map (\<lambda>e. map (call_of sentence ?ex (Some r) target args e)
                                      (evaluated self (Some r))) (index ?ex))"
    by (simp add: evaluate_explainers_calls[OF al] evaluation_loop_calls)
  have c1: "\<forall>c \<in> set ?calls. call_bucket c = Plausibility \<longrightarrow> call_rationale c = Some r"
    unfolding calls by (auto simp: call_of_def)
  have c2: "\<forall>e \<in> set (index ?ex). \<forall>m \<in> set (plausibility_metrics self).
              Call Plausibility (SHORT_NAME m) e sentence (loc_values ?ex e) (Some r) None args \<in> set ?calls"
  proof (intro ballI)
    fix e m assume e: "e \<in> set (index ?ex)" and "m \<in> set (plausibility_metrics self)"
    then have "(Plausibility, m) \<in> set (evaluated self (Some r))"
      by (simp add: ev)
    with e show "Call Plausibility (SHORT_NAME m) e sentence (loc_values ?ex e) (Some r) None args
            \<in> set ?calls"
      unfolding calls by (force simp: call_of_def)
  qed
  have c3: "\<forall>t. evaluate_explainers (self\<lparr>tokenizer := t\<rparr>) sentence explanations (Some r) rank_explainer
                  target args h
              = evaluate_explainers self sentence explanations (Some r) rank_explainer target args h"
    by (intro allI) (rule evaluate_explainers_tokenizer)
  have c4: "\<forall>p \<in> set (plausibility_metrics self).
            SHORT_NAME p \<notin> SHORT_NAME ` set (other_measures self)
            \<and> (\<forall>p' \<in> set (plausibility_metrics self). SHORT_NAME p' = SHORT_NAME p \<longrightarrow> p' = p) \<longrightarrow>
            (\<forall>e \<in> set (index ?ex).
               \<exists>inner. map_of ?t (SHORT_NAME p) = Some inner
                     \<and> map_of inner e
                         = Some (evaluate_explanation p sentence (loc_values ?ex e) (Some r) None args))
          \<and> (distinct (index ?ex) \<and> index ?ex \<noteq> [] \<longrightarrow>
               (\<exists>out calls h'.
                  evaluate_explainers self sentence explanations (Some r) False target args h
                    = (Inr out, calls, h')
                \<and> (SHORT_NAME p,
                    Floats (map (\<lambda>e. evaluate_explanation p sentence (loc_values ?ex e) (Some r) None args)
                              (index ?ex)))
                   \<in> set (cols (frames h' out))))"
  proof (intro ballI impI, elim conjE)
    fix p
    assume p: "p \<in> set (plausibility_metrics self)"
      and no: "SHORT_NAME p \<notin> SHORT_NAME ` set (other_measures self)"
      and u: "\<forall>p' \<in> set (plausibility_metrics self). SHORT_NAME p' = SHORT_NAME p \<longrightarrow> p' = p"
    let ?ms = "named (SHORT_NAME p) (evaluated self (Some r))"
    let ?ps = "named (SHORT_NAME p) (map (Pair Plausibility) (plausibility_metrics self))"
    let ?f = "\<lambda>e. evaluate_explanation p sentence (loc_values ?ex e) (Some r) None args"
    from no have "\<forall>m \<in> set (other_measures self). SHORT_NAME m \<noteq> SHORT_NAME p"
      by (metis imageI)
    then have o: "named (SHORT_NAME p) (map (Pair Other) (other_measures self)) = []"
      by (simp add: named_def filter_empty_conv)
    from p have ne: "?ps \<noteq> []"
      by (force simp: named_def filter_empty_conv)
    have "?ms = named (SHORT_NAME p) (map (Pair Faithfulness) (faithfulness_metrics self)) @ ?ps"
      by (simp add: ev named_def o[unfolded named_def])
    with ne have ms: "?ms \<noteq> []" "last ?ms = last ?ps" by simp_all
    from ne have "last ?ps \<in> set ?ps" by (rule last_in_set)
    then obtain p' where p': "last ?ps = (Plausibility, p')" "p' \<in> set (plausibility_metrics self)"
      "SHORT_NAME p' = SHORT_NAME p"
      by (auto simp: named_def)
    with u have "last ?ms = (Plausibility, p)" by (simp add: ms(2))
    then have sc: "score_of sentence ?ex (Some r) target args e (last ?ms) = ?f e" for e
      by (simp add: score_of_def)
    have cells: "\<forall>e \<in> set (index ?ex). cell ?t (SHORT_NAME p) e = Some (?f e)"
      using ms(1) by (simp add: evaluation_loop_cell sc)
    have 1: "\<forall>e \<in> set (index ?ex).
               \<exists>inner. map_of ?t (SHORT_NAME p) = Some inner \<and> map_of inner e = Some (?f e)"
      using cells by (auto simp: cell_def split: option.splits)
    have 2: "\<exists>out calls h'.
                  evaluate_explainers self sentence explanations (Some r) False target args h
                    = (Inr out, calls, h')
                \<and> (SHORT_NAME p, Floats (map ?f (index ?ex))) \<in> set (cols (frames h' out))"
      if "distinct (index ?ex)" "index ?ex \<noteq> []"
      by (rule evaluate_explainers_no_rank_column[OF al that cells])
    from 1 2 show "(\<forall>e \<in> set (index ?ex).
               \<exists>inner. map_of ?t (SHORT_NAME p) = Some inner
                     \<and> map_of inner e
                         = Some (evaluate_explanation p sentence (loc_values ?ex e) (Some r) None args))
          \<and> (distinct (index ?ex) \<and> index ?ex \<noteq> [] \<longrightarrow>
               (\<exists>out calls h'.
                  evaluate_explainers self sentence explanations (Some r) False target args h
                    = (Inr out, calls, h')
                \<and> (SHORT_NAME p,
                    Floats (map (\<lambda>e. evaluate_explanation p sentence (loc_values ?ex e) (Some r) None args)
                              (index ?ex)))
                   \<in> set (cols (frames h' out))))"
      by blast
  qed
  from c1 c2 c3 c4 show ?thesis by (intro conjI)
qed

theorem plausibility_receives_caller_rationale_witness:
  "(0::nat) < next_ref example_heap
   \<and> Call Plausibility ''auprc_plau'' ''shap'' ''the cat the'' (Array1 [3 / 10, - 1 / 5, 2 / 5])
        (Some [1, 0, 1]) None ()
      \<in> set (fst (snd (evaluate_explainers example_registry ''the cat the'' 0 (Some [1, 0, 1]) True 1 ()
                         example_heap)))
   \<and> (\<exists>out calls h'.
         evaluate_explainers example_registry ''the cat the'' 0 (Some [1, 0, 1]) False 1 () example_heap
           = (Inr out, calls, h')
       \<and> (''auprc_plau'', Floats [1 / 10, 7 / 10]) \<in> set (cols (frames h' out)))"
proof -
  have a: "(0::nat) < next_ref example_heap" by (simp add: example_heap_def)
  have e: "''shap'' \<in> set (index (frames example_heap 0))"
    by (simp add: example_heap_def example_matrix_def)
  have m: "example_plausibility \<in> set (plausibility_metrics example_registry)"
    by (simp add: example_registry_def)
  have l: "loc_values (frames example_heap 0) ''shap'' = Array1 [3 / 10, - 1 / 5, 2 / 5]"
    by (simp add: loc_values_def row_at_def example_heap_def example_matrix_def upt_rec)
  have l1: "loc_values (frames example_heap 0) ''lime'' = Array1 [1 / 10, 1 / 2, 0]"
    by (simp add: loc_values_def row_at_def example_heap_def example_matrix_def upt_rec)
  have ix: "index (frames example_heap 0) = [''lime'', ''shap'']"
    by (simp add: example_heap_def example_matrix_def)
  have d: "distinct (index (frames example_heap 0))" "index (frames example_heap 0) \<noteq> []"
    by (simp_all add: ix)
  have no: "SHORT_NAME example_plausibility \<notin> SHORT_NAME ` set (other_measures example_registry)"
    by (simp add: example_registry_def example_metric_def example_plausibility_def)
  have u: "\<forall>p' \<in> set (plausibility_metrics example_registry).
             SHORT_NAME p' = SHORT_NAME example_plausibility \<longrightarrow> p' = example_plausibility"
    by (simp add: example_registry_def)
  note t = plausibility_receives_caller_rationale[OF a, where self = example_registry
      and sentence = "''the cat the''" and r = "[1, 0, 1]" and target = 1 and args = "()"]
  from t[where rank_explainer = True]
  have "\<forall>e \<in> set (index (frames example_heap 0)). \<forall>m \<in> set (plausibility_metrics example_registry).
            Call Plausibility (SHORT_NAME m) e ''the cat the'' (loc_values (frames example_heap 0) e)
              (Some [1, 0, 1]) None ()
            \<in> set (fst (snd (evaluate_explainers example_registry ''the cat the'' 0 (Some [1, 0, 1]) True 1 ()
                               example_heap)))"
    by blast
  from this[rule_format, OF e m]
  have 1: "Call Plausibility ''auprc_plau'' ''shap'' ''the cat the'' (Array1 [3 / 10, - 1 / 5, 2 / 5])
        (Some [1, 0, 1]) None ()
      \<in> set (fst (snd (evaluate_explainers example_registry ''the cat the'' 0 (Some [1, 0, 1]) True 1 ()
                         example_heap)))"
    by (simp add: l example_plausibility_def)
  from t[where rank_explainer = True] m no u d
  have "\<exists>out calls h'.
         evaluate_explainers example_registry ''the cat the'' 0 (Some [1, 0, 1]) False 1 () example_heap
           = (Inr out, calls, h')
       \<and> (SHORT_NAME example_plausibility,
           Floats (map (\<lambda>e. evaluate_explanation example_plausibility ''the cat the''
                                (loc_values (frames example_heap 0) e) (Some [1, 0, 1]) None ())
                     (index (frames example_heap 0))))
          \<in> set (cols (frames h' out))"
    by blast
  then have 2: "\<exists>out calls h'.
         evaluate_explainers example_registry ''the cat the'' 0 (Some [1, 0, 1]) False 1 () example_heap
           = (Inr out, calls, h')
       \<and> (''auprc_plau'', Floats [1 / 10, 7 / 10]) \<in> set (cols (frames h' out))"
    by (simp add: ix l l1 example_plausibility_def)
  from a 1 2 show ?thesis by blast
qed

text \<open>
  C2. For a frame and an evaluator as \<open>ranker_input_ok\<close> describes, with at least one
  row, the ranker returns a table, and for every metric \<open>m\<close> whose score column is
  \<open>s\<close>: if \<open>BEST_SORTING_ASCENDING\<close> is false, the column \<open>SHORT_NAME_r\<close> of the table is
  \<open>min(N, max_rank) + 1 - r\<close> for the ascending dense ranks \<open>r\<close> of \<open>s\<close> and the number
  \<open>N\<close> of rows, and a row with the maximum score has rank 1; if it is true, the column is
  \<open>r\<close> itself, and a row with the minimum score has rank 1.
\<close>

theorem rank_columns_follow_direction:
  fixes self :: "'kw ExplanationEvalutator"
  assumes ok: "ranker_input_ok self (frames h df_eval) score_cols"
    and ne: "index (frames h df_eval) \<noteq> []"
    and m: "m \<in> set (evaluation_measures self)"
    and col: "getitem (frames h df_eval) (SHORT_NAME m) = [s]"
  shows "\<exists>out h'. rank_explainers self df_eval score_cols h = (Inr out, h')
     \<and> (BEST_SORTING_ASCENDING m = Some False \<longrightarrow>
           getitem (frames h' out) (SHORT_NAME m @ ''_r'') =
             [Ints (map (\<lambda>a. min (int (length (index (frames h df_eval))))
                                (Max (set (rankdata_dense (to_float s)))) + 1 - a)
                      (rankdata_dense (to_float s)))]
         \<and> (\<forall>i < length (to_float s). to_float s ! i = Max (set (to_float s)) \<longrightarrow>
               min (int (length (index (frames h df_eval)))) (Max (set (rankdata_dense (to_float s))))
                 + 1 - rankdata_dense (to_float s) ! i = 1))
     \<and> (BEST_SORTING_ASCENDING m = Some True \<longrightarrow>
           getitem (frames h' out) (SHORT_NAME m @ ''_r'') = [Ints (rankdata_dense (to_float s))]
         \<and> (\<forall>i < length (to_float s). to_float s ! i = Min (set (to_float s)) \<longrightarrow>
               rankdata_dense (to_float s) ! i = 1))"
proof -
  let ?df = "frames h df_eval"
  let ?xs = "to_float s"
  note sc = score_column_of[OF ok m col]
  from ne sc(2) have xs: "?xs \<noteq> []" by auto
  from rank_explainers_run[OF ok] ne obtain h'
    where res: "rank_explainers self df_eval score_cols h = (Inr (next_ref h), h')"
      and vals: "\<forall>m \<in> set (evaluation_measures self). SHORT_NAME m \<in> set (columns ?df) \<longrightarrow>
           (BEST_SORTING_ASCENDING m = Some False \<longrightarrow>
              getitem (frames h' (next_ref h)) (SHORT_NAME m @ ''_r'') =
                [Ints (inverted (length (index ?df)) (ravel (getitem ?df (SHORT_NAME m))))])
         \<and> (BEST_SORTING_ASCENDING m = Some True \<longrightarrow>
              getitem (frames h' (next_ref h)) (SHORT_NAME m @ ''_r'') =
                [Ints (rankdata_dense (ravel (getitem ?df (SHORT_NAME m))))])"
    by blast
  from vals m sc(1) have
    hi: "BEST_SORTING_ASCENDING m = Some False \<Longrightarrow>
           getitem (frames h' (next_ref h)) (SHORT_NAME m @ ''_r'') =
             [Ints (inverted (length (index ?df)) ?xs)]"
    and lo: "BEST_SORTING_ASCENDING m = Some True \<Longrightarrow>
           getitem (frames h' (next_ref h)) (SHORT_NAME m @ ''_r'') = [Ints (rankdata_dense ?xs)]"
    by (simp_all add: sc(3))
  have best: "min (int (length (index ?df))) (Max (set (rankdata_dense ?xs))) + 1 - rankdata_dense ?xs ! i = 1"
    if "i < length ?xs" "?xs ! i = Max (set ?xs)" for i
  proof -
    have "card (set ?xs) \<le> length (index ?df)" using card_length[of ?xs] sc(2) by simp
    then have "min (int (length (index ?df))) (int (card (set ?xs))) = int (card (set ?xs))" by simp
    then show ?thesis
      by (simp add: Max_rankdata_dense[OF xs] rank_of_Max[OF that])
  qed
  have least: "rankdata_dense ?xs ! i = 1" if "i < length ?xs" "?xs ! i = Min (set ?xs)" for i
    by (rule rank_of_Min[OF that])
  from res hi lo best least show ?thesis
    unfolding inverted_def by blast
qed

theorem rank_columns_follow_direction_witness:
  "ranker_input_ok example_registry (frames example_scored_heap 0) [''the'', ''cat'', ''the.1'']
   \<and> index (frames example_scored_heap 0) \<noteq> []
   \<and> (\<exists>out h'. rank_explainers example_registry 0 [''the'', ''cat'', ''the.1''] example_scored_heap
                  = (Inr out, h')
         \<and> getitem (frames h' out) ''aopc_compr_r'' = [Ints [1, 2, 1]])
   \<and> (\<exists>out h'. rank_explainers example_registry 0 [''the'', ''cat'', ''the.1''] example_scored_heap
                  = (Inr out, h')
         \<and> getitem (frames h' out) ''aopc_suff_r'' = [Ints [1, 3, 2]])"
proof -
  note ok = example_scored_ok
  have ne: "index (frames example_scored_heap 0) \<noteq> []"
    by (simp add: example_scored_heap_def example_scored_def)
  have m1: "example_metric ''aopc_compr'' ''faithfulness'' (Some False) sum_list
              \<in> set (evaluation_measures example_registry)"
    and m2: "example_metric ''aopc_suff'' ''faithfulness'' (Some True) hd
              \<in> set (evaluation_measures example_registry)"
    by (simp_all add: evaluation_measures_def example_registry_def)
  have c1: "getitem (frames example_scored_heap 0)
              (SHORT_NAME (example_metric ''aopc_compr'' ''faithfulness'' (Some False) sum_list))
            = [Floats [3 / 5, 1 / 2, 3 / 5]]"
    and c2: "getitem (frames example_scored_heap 0)
              (SHORT_NAME (example_metric ''aopc_suff'' ''faithfulness'' (Some True) hd))
            = [Floats [1 / 10, 3 / 10, 1 / 5]]"
    by (simp_all add: getitem_def example_scored_heap_def example_scored_def example_metric_def)
  have r1: "rankdata_dense [3 / 5, 1 / 2, 3 / 5] = [2, 1, 2]"
    and r2: "rankdata_dense [1 / 10, 3 / 10, 1 / 5] = [1, 3, 2]"
    by (simp_all add: rankdata_dense_def)
  have a: "\<exists>out h'. rank_explainers example_registry 0 [''the'', ''cat'', ''the.1''] example_scored_heap
                  = (Inr out, h')
         \<and> getitem (frames h' out) ''aopc_compr_r'' = [Ints [1, 2, 1]]"
    using rank_columns_follow_direction[OF ok ne m1 c1]
    apply (simp add: r1 example_metric_def example_scored_heap_def example_scored_def)
    apply blast
    done
  have b: "\<exists>out h'. rank_explainers example_registry 0 [''the'', ''cat'', ''the.1''] example_scored_heap
                  = (Inr out, h')
         \<and> getitem (frames h' out) ''aopc_suff_r'' = [Ints [1, 3, 2]]"
    using rank_columns_follow_direction[OF ok ne m2 c2]
    apply (simp add: r2 example_metric_def)
    apply blast
    done
  from ok ne a b show ?thesis by blast
qed

text \<open>
  C3. Under the same conditions, for a metric with a sort direction (either one): the
  rank column has one entry per row, every entry lies between 1 and the number of rows,
  rows with equal scores have equal ranks, and the ranks that occur are exactly
  \<open>1, \<dots>, d\<close> for the number \<open>d\<close> of distinct scores.
\<close>

theorem rank_columns_dense:
  fixes self :: "'kw ExplanationEvalutator"
  assumes ok: "ranker_input_ok self (frames h df_eval) score_cols"
    and ne: "index (frames h df_eval) \<noteq> []"
    and m: "m \<in> set (evaluation_measures self)"
    and col: "getitem (frames h df_eval) (SHORT_NAME m) = [s]"
    and dir: "BEST_SORTING_ASCENDING m = Some asc"
  shows "\<exists>out h' ranks. rank_explainers self df_eval score_cols h = (Inr out, h')
     \<and> getitem (frames h' out) (SHORT_NAME m @ ''_r'') = [Ints ranks]
     \<and> length ranks = length (index (frames h df_eval))
     \<and> (\<forall>k \<in> set ranks. 1 \<le> k \<and> k \<le> int (length (index (frames h df_eval))))
     \<and> (\<forall>i j. i < length ranks \<and> j < length ranks \<and> to_float s ! i = to_float s ! j \<longrightarrow>
            ranks ! i = ranks ! j)
     \<and> set ranks = {1..int (card (set (to_float s)))}"
proof -
  let ?df = "frames h df_eval"
  let ?xs = "to_float s"
  let ?n = "length (index ?df)"
  note sc = score_column_of[OF ok m col]
  from ne sc(2) have xs: "?xs \<noteq> []" by auto
  have dn: "card (set ?xs) \<le> ?n" using card_length[of ?xs] sc(2) by simp
  from rank_explainers_run[OF ok] ne obtain h'
    where res: "rank_explainers self df_eval score_cols h = (Inr (next_ref h), h')"
      and vals: "\<forall>m \<in> set (evaluation_measures self). SHORT_NAME m \<in> set (columns ?df) \<longrightarrow>
           (BEST_SORTING_ASCENDING m = Some False \<longrightarrow>
              getitem (frames h' (next_ref h)) (SHORT_NAME m @ ''_r'') =
                [Ints (inverted (length (index ?df)) (ravel (getitem ?df (SHORT_NAME m))))])
         \<and> (BEST_SORTING_ASCENDING m = Some True \<longrightarrow>
              getitem (frames h' (next_ref h)) (SHORT_NAME m @ ''_r'') =
                [Ints (rankdata_dense (ravel (getitem ?df (SHORT_NAME m))))])"
    by blast
  define ranks where "ranks = (if asc then rankdata_dense ?xs else inverted ?n ?xs)"
  from vals m sc(1) dir have g: "getitem (frames h' (next_ref h)) (SHORT_NAME m @ ''_r'') = [Ints ranks]"
    by (cases asc) (simp_all add: sc(3) ranks_def)
  have len: "length ranks = ?n"
    by (simp add: ranks_def length_rankdata_dense length_inverted sc(2))
  have st: "set ranks = {1..int (card (set ?xs))}"
    using set_inverted[OF xs, of ?n] sc(2)
    by (simp add: ranks_def set_rankdata_dense image_int_atLeastAtMost)
  have rng: "\<forall>k \<in> set ranks. 1 \<le> k \<and> k \<le> int ?n"
    unfolding st using dn by auto
  have ties: "ranks ! i = ranks ! j"
    if "i < length ranks" "j < length ranks" "?xs ! i = ?xs ! j" for i j
  proof -
    from that len sc(2) have ij: "i < length ?xs" "j < length ?xs" by simp_all
    have r: "rankdata_dense ?xs ! i = rankdata_dense ?xs ! j"
      by (rule rank_ties[OF ij that(3)])
    show ?thesis
    proof (cases asc)
      case True
      with r show ?thesis by (simp add: ranks_def)
    next
      case False
      have "inverted ?n ?xs = map (\<lambda>a. int (card (set ?xs)) + 1 - a) (rankdata_dense ?xs)"
        by (rule inverted_eq[OF xs]) (simp add: sc(2))
      with False r ij show ?thesis by (simp add: ranks_def length_rankdata_dense)
    qed
  qed
  from res g len rng ties st show ?thesis by blast
qed

theorem rank_columns_dense_witness:
  "ranker_input_ok example_registry (frames example_scored_heap 0) [''the'', ''cat'', ''the.1'']
   \<and> index (frames example_scored_heap 0) \<noteq> []
   \<and> (\<exists>out h' ranks.
         rank_explainers example_registry 0 [''the'', ''cat'', ''the.1''] example_scored_heap = (Inr out, h')
       \<and> getitem (frames h' out) ''aopc_compr_r'' = [Ints ranks]
       \<and> length ranks = 3
       \<and> set ranks = {1..2})"
proof -
  note ok = example_scored_ok
  have ne: "index (frames example_scored_heap 0) \<noteq> []"
    by (simp add: example_scored_heap_def example_scored_def)
  have m1: "example_metric ''aopc_compr'' ''faithfulness'' (Some False) sum_list
              \<in> set (evaluation_measures example_registry)"
    by (simp add: evaluation_measures_def example_registry_def)
  have c1: "getitem (frames example_scored_heap 0)
              (SHORT_NAME (example_metric ''aopc_compr'' ''faithfulness'' (Some False) sum_list))
            = [Floats [3 / 5, 1 / 2, 3 / 5]]"
    by (simp add: getitem_def example_scored_heap_def example_scored_def example_metric_def)
  have d1: "BEST_SORTING_ASCENDING (example_metric ''aopc_compr'' ''faithfulness'' (Some False) sum_list)
              = Some False"
    by (simp add: example_metric_def)
  have n: "length (index (frames example_scored_heap 0)) = 3"
    by (simp add: example_scored_heap_def example_scored_def)
  have k: "int (card (set (to_float (Floats [3 / 5, 1 / 2, 3 / 5])))) = 2"
    by (simp add: card_insert_if)
  from rank_columns_dense[OF ok ne m1 c1 d1] obtain out h' ranks where
    "rank_explainers example_registry 0 [''the'', ''cat'', ''the.1''] example_scored_heap = (Inr out, h')"
    "getitem (frames h' out)
       (SHORT_NAME (example_metric ''aopc_compr'' ''faithfulness'' (Some False) sum_list) @ ''_r'')
       = [Ints ranks]"
    "length ranks = length (index (frames example_scored_heap 0))"
    "set ranks = {1..int (card (set (to_float (Floats [3 / 5, 1 / 2, 3 / 5]))))}"
    by blast
  then have "\<exists>out h' ranks.
         rank_explainers example_registry 0 [''the'', ''cat'', ''the.1''] example_scored_heap = (Inr out, h')
       \<and> getitem (frames h' out) ''aopc_compr_r'' = [Ints ranks]
       \<and> length ranks = 3
       \<and> set ranks = {1..2}"
    unfolding n k by (auto simp: example_metric_def)
  with ok ne show ?thesis by blast
qed

text \<open>
  C6. A call with ranking enabled, on an allocated matrix with unique row labels and
  names as \<open>names_clash_free\<close> describes, returns a table whose columns are, in this
  order: the token columns of the working copy (disambiguated when a name repeated);
  then, for each metric in faithfulness, plausibility, other registration order that was
  scored (there is a row, and the metric is no plausibility metric skipped for want of a
  rationale) and has a sort direction, its score column followed by its rank column
  \<open>SHORT_NAME_r\<close>; then the columns of the table before ranking that are neither token
  columns nor placed yet.
\<close>

theorem final_column_order:
  fixes self :: "'kw ExplanationEvalutator"
  assumes al: "explanations < next_ref h"
    and d: "distinct (index (frames h explanations))"
    and wc: "working_copy explanations h = (df_eval, h2)"
    and cf: "names_clash_free self (columns (frames h2 df_eval))"
  shows "\<exists>out calls h'.
      evaluate_explainers self sentence explanations true_rationale True target args h
        = (Inr out, calls, h')
    \<and> (let tokens = columns (frames h2 df_eval);
            scored = (if index (frames h explanations) = [] then []
                      else map SHORT_NAME
                             (faithfulness_metrics self
                              @ (case true_rationale of None \<Rightarrow> [] | Some r \<Rightarrow> plausibility_metrics self)
                              @ other_measures self));
            show_cols = concat (map (\<lambda>m. [SHORT_NAME m, SHORT_NAME m @ ''_r''])
                          (filter (\<lambda>m. BEST_SORTING_ASCENDING m \<noteq> None \<and> SHORT_NAME m \<in> set scored)
                             (evaluation_measures self)))
        in columns (frames h' out) =
             tokens @ show_cols @ filter (\<lambda>c. c \<notin> set (tokens @ show_cols)) (tokens @ scored))"
proof -
  let ?ex = "frames h explanations"
  let ?wf = "frames h2 df_eval"
  let ?tokens = "columns ?wf"
  let ?el = "evaluation_loop self sentence ?ex true_rationale target args"
  let ?keys = "map fst (fst ?el)"
  let ?ms = "evaluation_measures self"
  let ?names = "map SHORT_NAME ?ms"
  from cf have dn: "distinct ?names"
    and nt: "\<And>m. m \<in> set ?ms \<Longrightarrow> SHORT_NAME m \<notin> set ?tokens"
    by (auto simp: names_clash_free_def)
  from evaluate_explainers_ranked_run[OF al d wc cf, of sentence true_rationale target args]
  obtain out calls h' cs where
    ee: "evaluate_explainers self sentence explanations true_rationale True target args h
           = (Inr out, calls, h')"
    and ck: "map fst cs = ?keys"
    and oc: "columns (frames h' out) =
        output_cols_of ?tokens
          (show_cols_of ?names
             (show_cols_for False ?ms (?wf\<lparr>cols := cols ?wf @ cs\<rparr>)
              @ show_cols_for True ?ms (?wf\<lparr>cols := cols ?wf @ cs\<rparr>)))
          (columns (?wf\<lparr>cols := cols ?wf @ cs\<rparr>))"
    by blast
  let ?df = "?wf\<lparr>cols := cols ?wf @ cs\<rparr>"
  have cdf: "columns ?df = ?tokens @ ?keys"
    by (simp add: columns_def ck)
  have flt: "filter (\<lambda>m. BEST_SORTING_ASCENDING m \<noteq> None \<and> SHORT_NAME m \<in> set (?tokens @ ?keys)) ?ms =
             filter (\<lambda>m. BEST_SORTING_ASCENDING m \<noteq> None \<and> SHORT_NAME m \<in> set ?keys) ?ms"
    by (rule filter_cong[OF refl]) (use nt in auto)
  have "columns (frames h' out) =
          output_cols_of ?tokens
            (concat (map (\<lambda>m. [SHORT_NAME m, SHORT_NAME m @ ''_r''])
               (filter (\<lambda>m. BEST_SORTING_ASCENDING m \<noteq> None \<and> SHORT_NAME m \<in> set ?keys) ?ms)))
            (?tokens @ ?keys)"
    unfolding oc show_cols_of_metrics[OF dn] cdf flt by (rule refl)
  with ee show ?thesis
    unfolding evaluation_loop_keys_explicit[OF dn]
    by (simp add: output_cols_of_def Let_def)
qed

theorem final_column_order_witness:
  "(0::nat) < next_ref example_heap
   \<and> distinct (index (frames example_heap 0))
   \<and> names_clash_free example_registry
        (columns (frames (snd (working_copy 0 example_heap)) (fst (working_copy 0 example_heap))))
   \<and> (\<exists>out calls h'.
         evaluate_explainers example_registry ''the cat the'' 0 (Some [1, 0, 1]) True 1 () example_heap
           = (Inr out, calls, h')
       \<and> columns (frames h' out) =
           [''the'', ''cat'', ''the.1'', ''aopc_compr'', ''aopc_compr_r'', ''aopc_suff'', ''aopc_suff_r'',
            ''auprc_plau'', ''auprc_plau_r'', ''n_tokens''])"
proof -
  have a: "(0::nat) < next_ref example_heap" by (simp add: example_heap_def)
  have d: "distinct (index (frames example_heap 0))"
    by (simp add: example_heap_def example_matrix_def)
  have wc: "working_copy 0 example_heap = (fst (working_copy 0 example_heap), snd (working_copy 0 example_heap))"
    by simp
  have tk: "columns (frames (snd (working_copy 0 example_heap)) (fst (working_copy 0 example_heap)))
              = [''the'', ''cat'', ''the.1'']"
    by (simp add: example_working_copy columns_def)
  have cf: "names_clash_free example_registry
        (columns (frames (snd (working_copy 0 example_heap)) (fst (working_copy 0 example_heap))))"
    unfolding tk by (rule example_clash_free)
  have ix: "index (frames example_heap 0) \<noteq> []"
    by (simp add: example_heap_def example_matrix_def)
  from final_column_order[OF a d wc cf, where sentence = "''the cat the''" and true_rationale = "Some [1, 0, 1]"
      and target = 1 and args = "()"]
  have "\<exists>out calls h'.
         evaluate_explainers example_registry ''the cat the'' 0 (Some [1, 0, 1]) True 1 () example_heap
           = (Inr out, calls, h')
       \<and> columns (frames h' out) =
           [''the'', ''cat'', ''the.1'', ''aopc_compr'', ''aopc_compr_r'', ''aopc_suff'', ''aopc_suff_r'',
            ''auprc_plau'', ''auprc_plau_r'', ''n_tokens'']"
    unfolding tk Let_def
    by (simp add: ix evaluation_measures_def example_registry_def example_metric_def
        example_plausibility_def
        del: not_None_eq)
  with a d cf show ?thesis by blast
qed

end
